theory Spec2Isabelle
  imports Main "HOL-Library.AList"
begin

section \<open>Data model\<close>

text \<open>
  JavaScript numbers that hold addresses, banks, opcodes and cycle counts are modelled as
  \<open>int\<close>; array positions as \<open>nat\<close>. Objects are records. The objects of the
  profiler that carry a \<open>symbol\<close> and an \<open>addr\<close> (interrupt table entries, parsed
  symbols, regions, call-stack frames) extend one base record, so that a function reading
  only \<open>.symbol\<close> accepts any of them, as the source does.
\<close>

record sym_addr =
  symbol :: string
  addr :: int

text \<open>An entry of \<open>INTERRUPTS\<close> (noi-parser.js).\<close>

record interrupt = sym_addr +
  name :: string

text \<open>An entry of the list \<open>parseNoi\<close> returns.\<close>

record noi_symbol = sym_addr +
  bank :: int

text \<open>A function region: the source's field \<open>end\<close> is \<open>end_addr\<close> here.\<close>

record region = noi_symbol +
  end_addr :: int

text \<open>A frame of \<open>fnStack\<close> (the objects pushed by \<open>pushFrame\<close> and \<open>onInterrupt\<close>).\<close>

record stack_frame = sym_addr +
  clock :: int
  childPushed :: bool
  openPrinted :: bool
  indent :: nat

text \<open>
  A Speedscope event. \<open>frame\<close> is \<open>noiIndex[symbol]\<close>, which is \<open>undefined\<close> (\<open>None\<close>)
  for a symbol missing from the index; \<open>start\<close> is present on close events only.
  Events are built by \<open>addOpenEvent\<close> and \<open>addCloseEvent\<close> alone, so \<open>type\<close> is one of
  \<open>"O"\<close> (\<open>OpenEv\<close>) and \<open>"C"\<close> (\<open>CloseEv\<close>).
\<close>

datatype event_type = OpenEv | CloseEv

record event =
  etype :: event_type
  at :: int
  frame :: "nat option"
  start :: "int option"

text \<open>
  The trace object: \<open>shared.frames\<close> (the names), \<open>profiles[0].endValue\<close>,
  \<open>profiles[0].events\<close> and \<open>captures\<close> (src, at, frameNumber).
\<close>

record trace =
  frames :: "string list"
  endValue :: int
  events :: "event list"
  captures :: "(string \<times> int \<times> nat) list"

text \<open>
  The fields of \<open>BenchmarkRunner\<close> the profiling hooks read and write. Both stacks are
  lists whose head is the top of the stack (the last element of the JavaScript array).
\<close>

record runner =
  noiLookup :: "noi_symbol list"
  functionRegions :: "region list"
  regionsByBank :: "int \<Rightarrow> region list option"
  noiIndex :: "string \<Rightarrow> nat option"
  currentFnRegion :: "region option"
  fnStack :: "stack_frame list"
  interruptStack :: "interrupt list"
  speedscope :: trace

datatype error = TypeError

section \<open>Array.prototype.sort\<close>

text \<open>
  \<open>xs.sort(cmp)\<close> is a stable sort: for a comparator that is a consistent ordering its
  result is the one list sorted by \<open>cmp\<close> in which elements that compare equal keep
  their order. Insertion from the right, placing an element before the first one it does
  not exceed, computes it.
\<close>

fun insertBy :: "('a \<Rightarrow> 'a \<Rightarrow> int) \<Rightarrow> 'a \<Rightarrow> 'a list \<Rightarrow> 'a list" where
  "insertBy cmp x [] = [x]"
| "insertBy cmp x (y # ys) = (if cmp x y \<le> 0 then x # y # ys else y # insertBy cmp x ys)"

definition jsSort :: "('a \<Rightarrow> 'a \<Rightarrow> int) \<Rightarrow> 'a list \<Rightarrow> 'a list" where
  "jsSort cmp xs = foldr (insertBy cmp) xs []"

section \<open>noi-parser.js\<close>

definition INTERRUPTS :: "interrupt list" where
  "INTERRUPTS =
     [\<lparr>symbol = ''[INTERRUPT] VBL'', addr = 0x40, name = ''VBL''\<rparr>,
      \<lparr>symbol = ''[INTERRUPT] LCD'', addr = 0x48, name = ''LCD''\<rparr>,
      \<lparr>symbol = ''[INTERRUPT] TIM'', addr = 0x50, name = ''TIM''\<rparr>,
      \<lparr>symbol = ''[INTERRUPT] SIO'', addr = 0x58, name = ''SIO''\<rparr>,
      \<lparr>symbol = ''[INTERRUPT] JOY'', addr = 0x60, name = ''JOY''\<rparr>]"

subsection \<open>Strings\<close>

text \<open>
  The text of a map file is modelled as a list of ASCII characters. The characters the
  regular expression class \<open>\s\<close> and \<open>trim\<close> treat as white space are then tab, line
  feed, vertical tab, form feed, carriage return and space.
\<close>

definition isSpace :: "char \<Rightarrow> bool" where
  "isSpace ch = (ch \<in> {CHR 0x09, CHR 0x0A, CHR 0x0B, CHR 0x0C, CHR 0x0D, CHR '' ''})"

text \<open>\<open>text.split("\n")\<close>.\<close>

fun splitLines :: "string \<Rightarrow> string list" where
  "splitLines [] = [[]]"
| "splitLines (ch # rest) =
     (if ch = CHR 0x0A then [] # splitLines rest
      else (case splitLines rest of
              [] \<Rightarrow> [[ch]]
            | line # lines \<Rightarrow> (ch # line) # lines))"

definition startsWith :: "string \<Rightarrow> string \<Rightarrow> bool" where
  "startsWith s p = (take (length p) s = p)"

text \<open>\<open>/p/.test(s)\<close> for a pattern \<open>p\<close> of literal characters: \<open>p\<close> occurs in \<open>s\<close>.\<close>

fun containsStr :: "string \<Rightarrow> string \<Rightarrow> bool" where
  "containsStr [] p = (p = [])"
| "containsStr (ch # rest) p = (startsWith (ch # rest) p \<or> containsStr rest p)"

text \<open>
  The first test of a line,
  \<open>/^DEF (_|F|\..*ISR|\.remove_|\.add_|\.mod|\.div)/\<close>. The dot of \<open>.*\<close> matches
  any character but a line terminator; within a line that is a carriage return.
\<close>

definition isDefinitionLine :: "string \<Rightarrow> bool" where
  "isDefinitionLine line =
     (startsWith line ''DEF '' \<and>
      (let s = drop 4 line
       in startsWith s ''_'' \<or> startsWith s ''F''
          \<or> (startsWith s ''.'' \<and> containsStr (takeWhile (\<lambda>ch. ch \<noteq> CHR 0x0D) (drop 1 s)) ''ISR'')
          \<or> startsWith s ''.remove_'' \<or> startsWith s ''.add_''
          \<or> startsWith s ''.mod'' \<or> startsWith s ''.div''))"

text \<open>The eight tests that reject a line.\<close>

definition isExcludedLine :: "string \<Rightarrow> bool" where
  "isExcludedLine line =
     (containsStr line ''_REG'' \<or> containsStr line ''_rRAM'' \<or> containsStr line ''_rROM''
      \<or> containsStr line ''_rMBC'' \<or> containsStr line ''__start_save''
      \<or> containsStr line ''___bank_'' \<or> containsStr line ''___func_''
      \<or> containsStr line ''___mute_mask_'')"

definition trim :: "string \<Rightarrow> string" where
  "trim s = rev (dropWhile isSpace (rev (dropWhile isSpace s)))"

text \<open>\<open>s.split(/\s+/)\<close>; \<open>cur\<close> is the piece being read.\<close>

function splitSpaces :: "string \<Rightarrow> string \<Rightarrow> string list" where
  "splitSpaces cur [] = [cur]"
| "splitSpaces cur (ch # rest) =
     (if isSpace ch then cur # splitSpaces [] (dropWhile isSpace rest)
      else splitSpaces (cur @ [ch]) rest)"
  by pat_completeness auto
termination
  by (relation "measure (\<lambda>(cur, s). length s)") (auto simp: le_imp_less_Suc length_dropWhile_le)

definition hexDigit :: "char \<Rightarrow> int option" where
  "hexDigit ch =
     (let n = (of_char ch :: nat)
      in if 48 \<le> n \<and> n \<le> 57 then Some (int n - 48)
         else if 97 \<le> n \<and> n \<le> 102 then Some (int n - 87)
         else if 65 \<le> n \<and> n \<le> 70 then Some (int n - 55)
         else None)"

text \<open>
  \<open>parseInt(s, 16)\<close>: leading white space, a sign, an optional \<open>0x\<close> or \<open>0X\<close>, then
  the longest run of hexadecimal digits; \<open>NaN\<close> (\<open>None\<close>) when the run is empty, and for
  a missing string (\<open>undefined\<close>). The value is exact here; the source's is up to
  \<open>2 ^ 53\<close>.
\<close>

definition parseInt16 :: "string option \<Rightarrow> int option" where
  "parseInt16 str =
     (case str of
        None \<Rightarrow> None
      | Some s0 \<Rightarrow>
          (let s1 = dropWhile isSpace s0;
               sgn = (if startsWith s1 ''-'' then -1 else 1);
               s2 = (if startsWith s1 ''-'' \<or> startsWith s1 ''+'' then drop 1 s1 else s1);
               s3 = (if startsWith s2 ''0x'' \<or> startsWith s2 ''0X'' then drop 2 s2 else s2);
               digits = takeWhile (\<lambda>ch. hexDigit ch \<noteq> None) s3
           in if digits = [] then None
              else Some (sgn * fold (\<lambda>ch acc. acc * 16 + the (hexDigit ch)) digits 0)))"

text \<open>
  \<open>symbol.replace(/^F([^$]+)\$/, "").replace(/\$.*/, "")\<close>: a leading \<open>F\<close>, at least
  one character and the first \<open>$\<close> are removed; then everything from the first \<open>$\<close> on.
\<close>

definition symbolClean :: "string \<Rightarrow> string" where
  "symbolClean sym0 =
     (let body = takeWhile (\<lambda>ch. ch \<noteq> CHR ''$'') (drop 1 sym0);
          s1 = (if startsWith sym0 ''F'' \<and> body \<noteq> [] \<and> length body + 1 < length sym0
                then drop (length body + 2) sym0 else sym0)
      in takeWhile (\<lambda>ch. ch \<noteq> CHR ''$'') s1)"

subsection \<open>parseNoi\<close>

text \<open>
  The body of the loop over the lines, up to the test of \<open>usedAddr\<close>: \<open>None\<close> for a
  line that is skipped, else the cleaned symbol, \<open>addr\<close> and \<open>bank\<close>. The bitwise
  operators take \<open>NaN\<close> as 0 and work on the 32-bit two's complement of the number, of
  which \<open>& 0xffff\<close> and \<open>(_ >> 16) & 0xff\<close> are these remainders.
\<close>

definition lineEntry :: "string \<Rightarrow> (string \<times> int \<times> int) option" where
  "lineEntry line =
     (if \<not> isDefinitionLine line then None
      else if isExcludedLine line then None
      else (let parts = splitSpaces [] (trim line);
                sym0 = (if 1 < length parts then parts ! 1 else []);
                addrStr = (if 2 < length parts then Some (parts ! 2) else None);
                fullAddr = (case parseInt16 addrStr of None \<Rightarrow> 0 | Some n \<Rightarrow> n);
                a = fullAddr mod 0x10000;
                b = (if a < 0x4000 then 0 else (fullAddr div 0x10000) mod 0x100)
            in Some (symbolClean sym0, a, b)))"

text \<open>
  The loop over the lines; \<open>used\<close> is \<open>usedAddr\<close>, whose keys \<open>b<bank>_<addr>\<close> stand for
  the pairs (bank, addr).
\<close>

fun parseLines :: "string list \<Rightarrow> noi_symbol list \<Rightarrow> (int \<times> int) set \<Rightarrow> noi_symbol list" where
  "parseLines [] result used = result"
| "parseLines (line # lines) result used =
     (case lineEntry line of
        None \<Rightarrow> parseLines lines result used
      | Some (name0, a, b) \<Rightarrow>
          if (b, a) \<in> used then parseLines lines result used
          else parseLines lines (result @ [\<lparr>symbol = name0, addr = a, bank = b\<rparr>])
                 (insert (b, a) used))"

definition parseNoi :: "string \<Rightarrow> noi_symbol list" where
  "parseNoi text =
     parseLines (splitLines text)
       (map (\<lambda>i. \<lparr>symbol = symbol i, addr = addr i, bank = 0\<rparr>) INTERRUPTS) {}"

subsection \<open>generateFunctionRegions\<close>

text \<open>\<open>bankGroups\<close>: a \<open>Map\<close> from bank to symbols, in insertion order.\<close>

definition groupByBank :: "noi_symbol list \<Rightarrow> (int \<times> noi_symbol list) list" where
  "groupByBank lookup =
     fold (\<lambda>fn groups.
            AList.update (bank fn)
              ((case map_of groups (bank fn) of None \<Rightarrow> [] | Some g \<Rightarrow> g) @ [fn]) groups)
       lookup []"

text \<open>
  The assignment of \<open>end\<close> along a sorted group: the next symbol's address less one,
  capped at \<open>addrMax\<close>, and \<open>addrMax\<close> for the last. A group is never empty.
\<close>

fun assignEnds :: "int \<Rightarrow> noi_symbol list \<Rightarrow> region list" where
  "assignEnds addrMax [] = []"
| "assignEnds addrMax [s] =
     [\<lparr>symbol = symbol s, addr = addr s, bank = bank s, end_addr = addrMax\<rparr>]"
| "assignEnds addrMax (s # nxt # rest) =
     \<lparr>symbol = symbol s, addr = addr s, bank = bank s, end_addr = min addrMax (addr nxt - 1)\<rparr>
       # assignEnds addrMax (nxt # rest)"

definition bankMax :: "int \<Rightarrow> int" where
  "bankMax b = (if b = 0 then 0x3fff else 0x7fff)"

definition groupRegions :: "int \<times> noi_symbol list \<Rightarrow> region list" where
  "groupRegions g =
     (case g of (b, symbols) \<Rightarrow>
        assignEnds (bankMax b) (jsSort (\<lambda>x y. addr x - addr y) symbols))"

definition generateFunctionRegions :: "noi_symbol list \<Rightarrow> region list" where
  "generateFunctionRegions lookup = concat (map groupRegions (groupByBank lookup))"

section \<open>speedscope.js\<close>

definition createSpeedscopeTrace :: "noi_symbol list \<Rightarrow> trace" where
  "createSpeedscopeTrace lookup =
     \<lparr>frames = map symbol lookup, endValue = 0, events = [], captures = []\<rparr>"

definition addOpenEvent :: "trace \<Rightarrow> nat option \<Rightarrow> int \<Rightarrow> trace" where
  "addOpenEvent t frameIndex a =
     t\<lparr>events := events t @ [\<lparr>etype = OpenEv, at = a, frame = frameIndex, start = None\<rparr>]\<rparr>"

definition addCloseEvent :: "trace \<Rightarrow> nat option \<Rightarrow> int \<Rightarrow> int \<Rightarrow> trace" where
  "addCloseEvent t frameIndex a st =
     t\<lparr>events := events t @ [\<lparr>etype = CloseEv, at = a, frame = frameIndex, start = Some st\<rparr>]\<rparr>"

definition addCapture :: "trace \<Rightarrow> string \<Rightarrow> int \<Rightarrow> nat \<Rightarrow> trace" where
  "addCapture t src a frameNumber = t\<lparr>captures := captures t @ [(src, a, frameNumber)]\<rparr>"

text \<open>The comparator of \<open>events.sort\<close> in \<open>finalizeTrace\<close>.\<close>

definition compareEvents :: "event \<Rightarrow> event \<Rightarrow> int" where
  "compareEvents a b =
     (if at a \<noteq> at b then at a - at b
      else if etype a = etype b then 0
      else if etype a = OpenEv then -1 else 1)"

text \<open>
  \<open>stackByFrame\<close> is a \<open>Map\<close> from \<open>event.frame\<close> to an array of open-event indices:
  an association list in insertion order, each stack with its top at the head.
\<close>

type_synonym open_stacks = "(nat option \<times> nat list) list"

text \<open>
  The first loop of the filter: \<open>walk c evs i inc sbf\<close> runs the loop body for the
  events \<open>evs\<close> at positions \<open>i, i + 1, ...\<close> with the array \<open>include\<close> and the map
  \<open>stackByFrame\<close> as they stand, and returns both.
\<close>

fun walk :: "int \<Rightarrow> event list \<Rightarrow> nat \<Rightarrow> bool list \<Rightarrow> open_stacks \<Rightarrow> bool list \<times> open_stacks" where
  "walk c [] i inc sbf = (inc, sbf)"
| "walk c (ev # evs) i inc sbf =
     (case etype ev of
        OpenEv \<Rightarrow>
          (let stack = (case map_of sbf (frame ev) of None \<Rightarrow> [] | Some s \<Rightarrow> s)
           in walk c evs (Suc i) inc (AList.update (frame ev) (i # stack) sbf))
      | CloseEv \<Rightarrow>
          (case map_of sbf (frame ev) of
             None \<Rightarrow> walk c evs (Suc i) inc sbf
           | Some [] \<Rightarrow> walk c evs (Suc i) inc sbf
           | Some (openIndex # stack) \<Rightarrow>
               (let sbf' = AList.update (frame ev) stack sbf
                in if at ev \<ge> c
                   then walk c evs (Suc i) (inc[openIndex := True, i := True]) sbf'
                   else walk c evs (Suc i) inc sbf')))"

text \<open>The second loop: every index still on a stack is included.\<close>

definition includeRemaining :: "bool list \<Rightarrow> open_stacks \<Rightarrow> bool list" where
  "includeRemaining inc sbf =
     fold (\<lambda>(k, stack) inc1. fold (\<lambda>openIndex inc2. inc2[openIndex := True]) stack inc1) sbf inc"

definition includeFlags :: "int \<Rightarrow> event list \<Rightarrow> bool list" where
  "includeFlags c evs =
     (case walk c evs 0 (replicate (length evs) False) [] of
        (inc, sbf) \<Rightarrow> includeRemaining inc sbf)"

text \<open>\<open>events.filter((_, idx) => include[idx])\<close>.\<close>

definition filterIncluded :: "event list \<Rightarrow> bool list \<Rightarrow> event list" where
  "filterIncluded evs inc = map fst (filter snd (zip evs inc))"

text \<open>
  \<open>finalizeTrace(trace, captureStartTime)\<close>; \<open>None\<close> is a \<open>captureStartTime\<close> of
  \<open>null\<close> or \<open>undefined\<close>, for which the filter is skipped. \<open>endValue\<close> is left as it
  is when no event remains.
\<close>

definition finalizeTrace :: "trace \<Rightarrow> int option \<Rightarrow> trace" where
  "finalizeTrace t captureStartTime =
     (let sorted = jsSort compareEvents (events t);
          included = (case captureStartTime of
                        None \<Rightarrow> sorted
                      | Some c \<Rightarrow> filterIncluded sorted (includeFlags c sorted))
      in if included \<noteq> []
         then t\<lparr>events := included, endValue := Max (set (map at included))\<rparr>
         else t\<lparr>events := included\<rparr>)"

section \<open>The call-stack engine (BenchmarkRunner)\<close>

text \<open>
  The emulator is outside the engine. What a hook reads from it is a parameter of the
  hook: the opcode, \<open>gb.cpu.r.pc\<close>, \<open>gb.cpu.memory.mbc.romBankNumber\<close>, and
  \<open>clockNow\<close>, the value of \<open>getGBTime()\<close> during the hook (the emulator's clock does
  not move while a hook runs). The verbose log lines are left out; the frame flags
  \<open>childPushed\<close> and \<open>openPrinted\<close> that accompany them are kept.
\<close>

definition CYCLES_PER_FRAME :: int where
  "CYCLES_PER_FRAME = 70256"

definition IGNORE_SYMBOLS :: "string list" where
  "IGNORE_SYMBOLS = [''.add_VBL'', ''.add_int'', ''_display_off'']"

definition RETI :: int where
  "RETI = 0xd9"

text \<open>\<open>getGBTime()\<close> from the emulator's per-frame cycle counter and \<open>framesElapsed\<close>.\<close>

definition getGBTime :: "int \<Rightarrow> int \<Rightarrow> int" where
  "getGBTime clock_c framesElapsed = clock_c + framesElapsed * CYCLES_PER_FRAME"

text \<open>The predicate of \<open>bankRegions.find\<close>, also the range test of the sticky check.\<close>

definition inRegion :: "int \<Rightarrow> region \<Rightarrow> bool" where
  "inRegion pc fn = (pc \<ge> addr fn \<and> pc \<le> end_addr fn)"

text \<open>
  \<open>getCurrentFunctionRegion(pc, bank)\<close>. Regions are compared as values where the source
  compares object references: the region objects of one run differ in symbol or
  in (bank, addr), so both agree.
\<close>

definition lookupRegion :: "runner \<Rightarrow> int \<Rightarrow> int \<Rightarrow> region option" where
  "lookupRegion r pc bnk =
     (let targetBank = (if pc < 0x4000 then 0 else bnk)
      in case regionsByBank r targetBank of
           None \<Rightarrow> None
         | Some bankRegions \<Rightarrow> find (inRegion pc) bankRegions)"

definition getCurrentFunctionRegion :: "runner \<Rightarrow> int \<Rightarrow> int \<Rightarrow> region option" where
  "getCurrentFunctionRegion r pc bnk =
     (case currentFnRegion r of
        None \<Rightarrow> lookupRegion r pc bnk
      | Some fn \<Rightarrow>
          if pc \<ge> addr fn \<and> pc \<le> end_addr fn \<and> (pc < 0x4000 \<or> bank fn = bnk)
          then Some fn
          else lookupRegion r pc bnk)"

definition pushFrame :: "runner \<Rightarrow> region \<Rightarrow> int \<Rightarrow> runner" where
  "pushFrame r fn clockNow =
     (let marked = (case fnStack r of
                      [] \<Rightarrow> []
                    | parent # below \<Rightarrow> parent\<lparr>childPushed := True, openPrinted := True\<rparr> # below)
      in r\<lparr>fnStack :=
             \<lparr>symbol = symbol fn, addr = addr fn, clock = clockNow, childPushed = False,
              openPrinted = False, indent = length (fnStack r)\<rparr> # marked,
           speedscope := addOpenEvent (speedscope r) (noiIndex r (symbol fn)) clockNow\<rparr>)"

definition fnStackContains :: "runner \<Rightarrow> 'a sym_addr_scheme \<Rightarrow> bool" where
  "fnStackContains r searchFn = list_ex (\<lambda>fn. symbol fn = symbol searchFn) (fnStack r)"

text \<open>
  The loop of \<open>popFramesUntil\<close>; \<open>target\<close> is \<open>fn?.symbol\<close>, \<open>None\<close> when \<open>fn\<close> is
  \<open>undefined\<close>. A frame's symbol is a string, never \<open>undefined\<close>.
\<close>

fun popUntilLoop ::
  "(string \<Rightarrow> nat option) \<Rightarrow> int \<Rightarrow> string option \<Rightarrow> stack_frame list \<Rightarrow> trace
     \<Rightarrow> stack_frame list \<times> trace" where
  "popUntilLoop idx clockNow target [] t = ([], t)"
| "popUntilLoop idx clockNow target (poppedFn # below) t =
     (if Some (symbol poppedFn) \<noteq> target
      then popUntilLoop idx clockNow target below
             (addCloseEvent t (idx (symbol poppedFn)) (max clockNow (clock poppedFn)) (clock poppedFn))
      else (poppedFn # below, t))"

definition popFramesUntil :: "runner \<Rightarrow> 'a sym_addr_scheme option \<Rightarrow> int \<Rightarrow> runner" where
  "popFramesUntil r fn clockNow =
     (case fn of
        Some f \<Rightarrow>
          if \<not> fnStackContains r f then r
          else (case popUntilLoop (noiIndex r) clockNow (Some (symbol f)) (fnStack r) (speedscope r) of
                  (st, t) \<Rightarrow> r\<lparr>fnStack := st, speedscope := t\<rparr>)
      | None \<Rightarrow>
          (case popUntilLoop (noiIndex r) clockNow None (fnStack r) (speedscope r) of
             (st, t) \<Rightarrow> r\<lparr>fnStack := st, speedscope := t\<rparr>))"

text \<open>The loop of \<open>popFramesIncluding\<close>: it closes at \<open>clockNow\<close> as it is.\<close>

fun popIncludingLoop ::
  "(string \<Rightarrow> nat option) \<Rightarrow> int \<Rightarrow> string option \<Rightarrow> stack_frame list \<Rightarrow> trace
     \<Rightarrow> stack_frame list \<times> trace" where
  "popIncludingLoop idx clockNow target [] t = ([], t)"
| "popIncludingLoop idx clockNow target (poppedFn # below) t =
     (let t' = addCloseEvent t (idx (symbol poppedFn)) clockNow (clock poppedFn)
      in if Some (symbol poppedFn) = target then (below, t')
         else popIncludingLoop idx clockNow target below t')"

definition popFramesIncluding :: "runner \<Rightarrow> 'a sym_addr_scheme option \<Rightarrow> int \<Rightarrow> runner" where
  "popFramesIncluding r fn clockNow =
     (case fn of
        Some f \<Rightarrow>
          if \<not> fnStackContains r f then r
          else (case popIncludingLoop (noiIndex r) clockNow (Some (symbol f)) (fnStack r) (speedscope r) of
                  (st, t) \<Rightarrow> r\<lparr>fnStack := st, speedscope := t\<rparr>)
      | None \<Rightarrow>
          (case popIncludingLoop (noiIndex r) clockNow None (fnStack r) (speedscope r) of
             (st, t) \<Rightarrow> r\<lparr>fnStack := st, speedscope := t\<rparr>))"

text \<open>
  The \<open>while\<close> loop of \<open>popInterrupts\<close>: \<open>pending\<close> is \<open>interruptStack\<close>, top first.
  Each round pops the top interrupt and calls \<open>popFramesIncluding\<close> with it.
\<close>

fun popInterruptsLoop :: "int \<Rightarrow> interrupt list \<Rightarrow> runner \<Rightarrow> runner" where
  "popInterruptsLoop clockNow [] r = r"
| "popInterruptsLoop clockNow (interrupted # pending) r =
     popInterruptsLoop clockNow pending
       (popFramesIncluding (r\<lparr>interruptStack := pending\<rparr>) (Some interrupted) clockNow)"

definition popInterrupts :: "runner \<Rightarrow> int \<Rightarrow> runner" where
  "popInterrupts r clockNow =
     (if length (interruptStack r) > 0 then popInterruptsLoop clockNow (interruptStack r) r else r)"

text \<open>
  The hook \<open>gb.cpu.onAfterInstruction\<close>. The source's last statement
  (\<open>this.currentFnRegion = null\<close>) is never reached: a region that is found either
  starts at \<open>pc\<close> or does not.
\<close>

definition onAfterInstruction :: "runner \<Rightarrow> int \<Rightarrow> int \<Rightarrow> int \<Rightarrow> int \<Rightarrow> runner" where
  "onAfterInstruction r opcode pc bnk clockNow =
     (if opcode = RETI then popInterrupts r clockNow
      else case getCurrentFunctionRegion r pc bnk of
             None \<Rightarrow> r
           | Some newFn \<Rightarrow>
               if Some newFn = currentFnRegion r then r
               else if List.member IGNORE_SYMBOLS (symbol newFn) then r
               else if pc = addr newFn
                 then (pushFrame r newFn clockNow)\<lparr>currentFnRegion := Some newFn\<rparr>
               else if fnStackContains r newFn
                 then (popFramesUntil r (Some newFn) clockNow)\<lparr>currentFnRegion := Some newFn\<rparr>
               else if length (interruptStack r) > 0 then r
               else if pc \<ge> 0x4000
                 then (pushFrame r newFn clockNow)\<lparr>currentFnRegion := Some newFn\<rparr>
               else r\<lparr>currentFnRegion := Some newFn\<rparr>)"

text \<open>
  The hook \<open>gb.cpu.onInterrupt\<close>; \<open>interrupt\<close> is the index into \<open>INTERRUPTS\<close>. An
  index outside the table makes \<open>INTERRUPTS[interrupt].symbol\<close> throw.
\<close>

definition onInterrupt :: "runner \<Rightarrow> nat \<Rightarrow> int \<Rightarrow> error + runner" where
  "onInterrupt r interrupt clockNow =
     (if interrupt < length INTERRUPTS
      then (let r1 = popInterrupts r clockNow; i = INTERRUPTS ! interrupt
            in Inr (r1\<lparr>interruptStack := i # interruptStack r1,
                     fnStack :=
                       \<lparr>symbol = symbol i, addr = addr i, clock = clockNow, childPushed = False,
                        openPrinted = False, indent = length (fnStack r1)\<rparr> # fnStack r1,
                     speedscope := addOpenEvent (speedscope r1) (noiIndex r1 (symbol i)) clockNow\<rparr>))
      else Inl TypeError)"

text \<open>
  The part of \<open>initialize()\<close> that builds the symbol tables and the empty trace;
  \<open>noiData\<close> is skipped when it is missing or the empty string.
\<close>

definition buildRegionsByBank :: "region list \<Rightarrow> (int \<Rightarrow> region list option)" where
  "buildRegionsByBank regions =
     fold (\<lambda>rg m. m(bank rg \<mapsto> (case m (bank rg) of None \<Rightarrow> [] | Some l \<Rightarrow> l) @ [rg]))
       regions Map.empty"

definition buildNoiIndex :: "noi_symbol list \<Rightarrow> (string \<Rightarrow> nat option)" where
  "buildNoiIndex lookup =
     fold (\<lambda>i m. m(symbol (lookup ! i) \<mapsto> i)) [0..<length lookup] Map.empty"

definition initialize :: "string option \<Rightarrow> runner" where
  "initialize noiData =
     (let lookup = (case noiData of None \<Rightarrow> [] | Some text \<Rightarrow> if text = [] then [] else parseNoi text);
          regions = (case noiData of
                       None \<Rightarrow> []
                     | Some text \<Rightarrow> if text = [] then [] else generateFunctionRegions lookup)
      in \<lparr>noiLookup = lookup,
          functionRegions = regions,
          regionsByBank = buildRegionsByBank regions,
          noiIndex = (case noiData of
                        None \<Rightarrow> Map.empty
                      | Some text \<Rightarrow> if text = [] then Map.empty else buildNoiIndex lookup),
          currentFnRegion = None,
          fnStack = [],
          interruptStack = [],
          speedscope = createSpeedscopeTrace lookup\<rparr>)"

section \<open>Specification-level definitions\<close>

text \<open>
  The definitions of this section are not translations of source functions: they word
  what the source functions are compared with.
\<close>

text \<open>The close event of a popped frame, stamped \<open>a\<close>.\<close>

definition closeEvent :: "(string \<Rightarrow> nat option) \<Rightarrow> int \<Rightarrow> stack_frame \<Rightarrow> event" where
  "closeEvent idx a f = \<lparr>etype = CloseEv, at = a, frame = idx (symbol f), start = Some (clock f)\<rparr>"

definition appendEvents :: "trace \<Rightarrow> event list \<Rightarrow> trace" where
  "appendEvents t es = t\<lparr>events := events t @ es\<rparr>"



text \<open>The sticky check and the regions of the target bank, worded as the specification does.\<close>

definition stickyHit :: "runner \<Rightarrow> int \<Rightarrow> int \<Rightarrow> bool" where
  "stickyHit r pc bnk =
     (case currentFnRegion r of
        None \<Rightarrow> False
      | Some fn \<Rightarrow> addr fn \<le> pc \<and> pc \<le> end_addr fn \<and> (pc < 0x4000 \<or> bank fn = bnk))"

definition targetBankRegions :: "runner \<Rightarrow> int \<Rightarrow> int \<Rightarrow> region list" where
  "targetBankRegions r pc bnk =
     (case regionsByBank r (if pc < 0x4000 then 0 else bnk) of None \<Rightarrow> [] | Some l \<Rightarrow> l)"

subsection \<open>Example states\<close>

definition demoText :: string where
  "demoText = ''DEF _main 0x150'' @ [CHR 0x0A] @ ''DEF _foo 0x200'' @ [CHR 0x0A]
     @ ''DEF _x 0x14100'' @ [CHR 0x0A] @ ''DEF _x 0x24200''"

definition demoRunner :: runner where
  "demoRunner = initialize (Some demoText)"

definition mkFrame :: "string \<Rightarrow> int \<Rightarrow> int \<Rightarrow> nat \<Rightarrow> stack_frame" where
  "mkFrame s a c n = \<lparr>symbol = s, addr = a, clock = c, childPushed = False, openPrinted = False, indent = n\<rparr>"


definition lateRunner :: runner where
  "lateRunner = demoRunner\<lparr>
     fnStack := [mkFrame ''[INTERRUPT] VBL'' 0x40 70300 1, mkFrame ''_main'' 0x150 10 0],
     interruptStack := [INTERRUPTS ! 0]\<rparr>"

definition bankedRunner :: runner where
  "bankedRunner = demoRunner\<lparr>
     fnStack := [mkFrame ''_foo'' 0x200 300 2, mkFrame ''_x'' 0x4100 200 1, mkFrame ''_main'' 0x150 10 0]\<rparr>"

definition stickyRunner :: runner where
  "stickyRunner = demoRunner\<lparr>currentFnRegion :=
     Some \<lparr>symbol = ''_x'', addr = 0x4100, bank = 1, end_addr = 0x7FFF\<rparr>\<rparr>"

definition xBank2 :: region where
  "xBank2 = \<lparr>symbol = ''_x'', addr = 0x4200, bank = 2, end_addr = 0x7FFF\<rparr>"

definition mainRegion :: region where
  "mainRegion = \<lparr>symbol = ''_main'', addr = 0x150, bank = 0, end_addr = 0x1FF\<rparr>"

text \<open>
  Auxiliary views of the filter's state: all the indices held in \<open>stackByFrame\<close>, the
  stack of one frame index (empty when the \<open>Map\<close> has no entry), and the array
  \<open>include\<close> as it stands after both loops when the first loop continues from a given
  state.
\<close>

definition openIdx :: "open_stacks \<Rightarrow> nat list" where
  "openIdx sbf = concat (map snd sbf)"

definition stackOf :: "open_stacks \<Rightarrow> nat option \<Rightarrow> nat list" where
  "stackOf sbf f = (case map_of sbf f of None \<Rightarrow> [] | Some s \<Rightarrow> s)"

definition finalFlags :: "int \<Rightarrow> event list \<Rightarrow> nat \<Rightarrow> bool list \<Rightarrow> open_stacks \<Rightarrow> bool list" where
  "finalFlags c evs i inc sbf = (case walk c evs i inc sbf of (inc', sbf') \<Rightarrow> includeRemaining inc' sbf')"

text \<open>
  The invariant of the first loop at position \<open>i\<close>: no index is on two stacks or twice
  on one, every index on a stack is below \<open>i\<close> and not yet included, and no index from
  \<open>i\<close> on is included.
\<close>

definition walkInv :: "nat \<Rightarrow> bool list \<Rightarrow> open_stacks \<Rightarrow> bool" where
  "walkInv i inc sbf =
     (distinct (openIdx sbf) \<and> (\<forall>j\<in>set (openIdx sbf). j < i \<and> \<not> inc ! j) \<and>
      (\<forall>j. i \<le> j \<longrightarrow> j < length inc \<longrightarrow> \<not> inc ! j))"

text \<open>
  The matching the specification words: walk the events in order with a LIFO of open
  indices per frame index; a close event pops the top open index of its frame index and
  forms a pair with it, or is unmatched when that stack is empty. \<open>matchEvents\<close>
  returns the pairs (open index, close index), the indices of the unmatched close events
  and the stacks left at the end, whose indices are the unmatched open events.
\<close>

fun matchEvents ::
  "event list \<Rightarrow> nat \<Rightarrow> open_stacks \<Rightarrow> (nat \<times> nat) list \<times> nat list \<times> open_stacks" where
  "matchEvents [] i sbf = ([], [], sbf)"
| "matchEvents (ev # evs) i sbf =
     (case etype ev of
        OpenEv \<Rightarrow> matchEvents evs (Suc i) (AList.update (frame ev) (i # stackOf sbf (frame ev)) sbf)
      | CloseEv \<Rightarrow>
          (case stackOf sbf (frame ev) of
             [] \<Rightarrow> (case matchEvents evs (Suc i) sbf of (ps, us, s) \<Rightarrow> (ps, i # us, s))
           | openIndex # stack \<Rightarrow>
               (case matchEvents evs (Suc i) (AList.update (frame ev) stack sbf) of
                  (ps, us, s) \<Rightarrow> ((openIndex, i) # ps, us, s))))"

definition matchedPairs :: "event list \<Rightarrow> (nat \<times> nat) list" where
  "matchedPairs evs = fst (matchEvents evs 0 [])"

definition unmatchedCloses :: "event list \<Rightarrow> nat list" where
  "unmatchedCloses evs = fst (snd (matchEvents evs 0 []))"

definition unmatchedOpens :: "event list \<Rightarrow> nat list" where
  "unmatchedOpens evs = openIdx (snd (snd (matchEvents evs 0 [])))"

text \<open>
  A well-formed pair: an open event and a later close event with the same frame index.
\<close>

definition pairOk :: "event list \<Rightarrow> nat \<times> nat \<Rightarrow> bool" where
  "pairOk es p = (fst p < snd p \<and> snd p < length es \<and> etype (es ! fst p) = OpenEv \<and>
     etype (es ! snd p) = CloseEv \<and> frame (es ! fst p) = frame (es ! snd p))"

text \<open>
  An example trace: a pair that ends before cycle 100, a pair that straddles it, a pair
  after it, an open event that is never closed and a close event that was never opened.
\<close>

definition mkOpen :: "nat \<Rightarrow> int \<Rightarrow> event" where
  "mkOpen f a = \<lparr>etype = OpenEv, at = a, frame = Some f, start = None\<rparr>"

definition mkClose :: "nat \<Rightarrow> int \<Rightarrow> int \<Rightarrow> event" where
  "mkClose f a st = \<lparr>etype = CloseEv, at = a, frame = Some f, start = Some st\<rparr>"

definition demoTrace :: trace where
  "demoTrace = \<lparr>frames = [''a'', ''b'', ''c'', ''d''], endValue = 0,
     events = [mkOpen 0 10, mkOpen 1 20, mkClose 1 30 20, mkOpen 2 200, mkClose 2 200 200,
               mkClose 0 150 10, mkOpen 1 250, mkClose 3 260 255],
     captures = []\<rparr>"

text \<open>
  The sorted event list the filter walks, and the indices of it that the filter retains.
\<close>

definition sortedEvents :: "trace \<Rightarrow> event list" where
  "sortedEvents t = jsSort compareEvents (events t)"

definition retainedAt :: "int \<Rightarrow> event list \<Rightarrow> nat \<Rightarrow> bool" where
  "retainedAt c es j = (j < length es \<and> includeFlags c es ! j)"

section \<open>Properties of the call-stack engine\<close>

lemma appendEvents_Nil [simp]: "appendEvents t [] = t"
  by (simp add: appendEvents_def)

lemma appendEvents_append [simp]: "appendEvents (appendEvents t xs) ys = appendEvents t (xs @ ys)"
  by (simp add: appendEvents_def)

lemma addCloseEvent_append:
  "addCloseEvent t (idx (symbol f)) a (clock f) = appendEvents t [closeEvent idx a f]"
  by (simp add: addCloseEvent_def appendEvents_def closeEvent_def)

lemma popUntilLoop_eq:
  "popUntilLoop idx c (Some s) st t =
     (dropWhile (\<lambda>f. symbol f \<noteq> s) st,
      appendEvents t (map (\<lambda>f. closeEvent idx (max c (clock f)) f) (takeWhile (\<lambda>f. symbol f \<noteq> s) st)))"
  by (induction st arbitrary: t) (simp_all add: addCloseEvent_append)


lemma fnStackContains_iff: "fnStackContains r fn = (symbol fn \<in> set (map symbol (fnStack r)))"
  by (simp add: fnStackContains_def list_ex_iff image_iff) metis


lemma popFramesIncluding_fields [simp]:
  "interruptStack (popFramesIncluding r fn c) = interruptStack r"
  "noiIndex (popFramesIncluding r fn c) = noiIndex r"
  by (auto simp add: popFramesIncluding_def split: option.splits prod.splits)




lemma popFramesUntil_Some:
  "fnStackContains r fn \<Longrightarrow>
   popFramesUntil r (Some fn) c =
     r\<lparr>fnStack := dropWhile (\<lambda>f. symbol f \<noteq> symbol fn) (fnStack r),
       speedscope := appendEvents (speedscope r)
         (map (\<lambda>f. closeEvent (noiIndex r) (max c (clock f)) f)
            (takeWhile (\<lambda>f. symbol f \<noteq> symbol fn) (fnStack r)))\<rparr>"
  by (simp add: popFramesUntil_def popUntilLoop_eq)


subsection \<open>RETI\<close>




subsection \<open>Close timestamps\<close>

text \<open>
  Claim C2 does not hold of the code. \<open>addCloseEvent\<close> records \<open>at\<close> as it is given,
  and \<open>popFramesIncluding\<close> passes it \<open>clockNow\<close> unclamped: the interrupt frame opened at
  cycle 70300 and closed by a \<open>RETI\<close> when \<open>getGBTime()\<close> reads 70260 gets a close event
  with \<open>at\<close> 70260, below its \<open>start\<close>.
\<close>

theorem close_not_clamped_after_clock_reset:
  "events (addCloseEvent t idx 50 100) =
     events t @ [\<lparr>etype = CloseEv, at = 50, frame = idx, start = Some 100\<rparr>] \<and>
   events (speedscope (onAfterInstruction lateRunner RETI 0x151 0 70260)) =
     [\<lparr>etype = CloseEv, at = 70260, frame = Some 0, start = Some 70300\<rparr>]"
proof -
  have a: "events (addCloseEvent t idx 50 100) =
     events t @ [\<lparr>etype = CloseEv, at = 50, frame = idx, start = Some 100\<rparr>]"
    by (simp add: addCloseEvent_def)
  have b: "events (speedscope (onAfterInstruction lateRunner RETI 0x151 0 70260)) =
     [\<lparr>etype = CloseEv, at = 70260, frame = Some 0, start = Some 70300\<rparr>]"
    by code_simp
  show ?thesis using a b by (rule conjI)
qed

text \<open>
  The sibling path \<open>popFramesUntil\<close> does clamp: each close event it emits is stamped
  \<open>max clockNow clock\<close>, never below the frame's own clock.
\<close>

lemma popFramesUntil_closes_clamped:
  assumes "fnStackContains r fn"
    and "e \<in> set (drop (length (events (speedscope r))) (events (speedscope (popFramesUntil r (Some fn) c))))"
  shows "\<exists>k. start e = Some k \<and> k \<le> at e"
  using assms by (auto simp add: popFramesUntil_Some appendEvents_def closeEvent_def)

text \<open>
  Claim C7. A \<open>RETI\<close> while the interrupt stack is empty returns the engine state as it
  was: no event is added and both stacks are unchanged. The unwinding loops stop at an
  empty call stack: on an empty call stack \<open>popFramesIncluding\<close> and \<open>popFramesUntil\<close>
  change nothing.
\<close>

theorem reti_with_no_interrupt:
  "(interruptStack r = [] \<longrightarrow> onAfterInstruction r RETI pc bnk clockNow = r) \<and>
   (fnStack r = [] \<longrightarrow> popFramesIncluding r fn clockNow = r \<and> popFramesUntil r fn clockNow = r)"
  by (cases fn) (simp_all add: onAfterInstruction_def popInterrupts_def popFramesIncluding_def
      popFramesUntil_def fnStackContains_def)



theorem reti_with_no_interrupt_witness:
  "interruptStack demoRunner = [] \<and> fnStack demoRunner = [] \<and>
   onAfterInstruction demoRunner RETI 0x151 1 2000 = demoRunner \<and>
   popFramesIncluding demoRunner (Some (INTERRUPTS ! 0)) 2000 = demoRunner \<and>
   popFramesUntil demoRunner (Some (INTERRUPTS ! 0)) 2000 = demoRunner"
proof -
  have a: "interruptStack demoRunner = []" by code_simp
  have b: "fnStack demoRunner = []" by code_simp
  show ?thesis
    using a b reti_with_no_interrupt [of demoRunner "0x151" 1 2000 "Some (INTERRUPTS ! 0)"]
    by blast
qed

subsection \<open>The resolver\<close>

lemma lookupRegion_eq:
  "lookupRegion r pc bnk = find (inRegion pc) (targetBankRegions r pc bnk)"
  by (simp add: lookupRegion_def targetBankRegions_def split: option.splits)

lemma getCurrentFunctionRegion_eq:
  "getCurrentFunctionRegion r pc bnk =
     (if stickyHit r pc bnk then currentFnRegion r
      else find (inRegion pc) (targetBankRegions r pc bnk))"
proof (cases "currentFnRegion r")
  case None
  then show ?thesis
    by (simp add: getCurrentFunctionRegion_def stickyHit_def lookupRegion_eq)
next
  case (Some fn)
  show ?thesis
  proof (cases "stickyHit r pc bnk")
    case True
    with Some show ?thesis
      by (simp add: getCurrentFunctionRegion_def stickyHit_def)
  next
    case False
    with Some show ?thesis
      by (auto simp add: getCurrentFunctionRegion_def stickyHit_def lookupRegion_eq)
  qed
qed

lemma find_unique:
  assumes "x \<in> set xs" and "P x" and "\<forall>y\<in>set xs. y \<noteq> x \<longrightarrow> \<not> P y"
  shows "find P xs = Some x"
  using assms by (induction xs) auto

lemma find_inRegion_Some:
  "find (inRegion pc) l = Some rg \<Longrightarrow> rg \<in> set l \<and> addr rg \<le> pc \<and> pc \<le> end_addr rg"
  by (induction l) (auto simp add: inRegion_def split: if_splits)

lemma find_inRegion_None:
  "find (inRegion pc) l = None \<Longrightarrow> \<forall>rg\<in>set l. \<not> (addr rg \<le> pc \<and> pc \<le> end_addr rg)"
  by (induction l) (auto simp add: inRegion_def split: if_splits)

lemma find_inRegion_at_end:
  "rg \<in> set l \<Longrightarrow> addr rg \<le> end_addr rg \<Longrightarrow> pc = end_addr rg \<Longrightarrow>
   \<forall>other\<in>set l. other \<noteq> rg \<longrightarrow> \<not> inRegion pc other \<Longrightarrow> find (inRegion pc) l = Some rg"
  by (rule find_unique) (simp_all add: inRegion_def)

text \<open>
  Claim C6. If the cached region passes the sticky check (\<open>pc\<close> within its
  \<open>[addr, end]\<close>, and \<open>pc < 0x4000\<close> or its bank is the current ROM bank), the resolver
  returns it. Otherwise it returns the result of the search of the target bank's regions
  (bank 0 when \<open>pc < 0x4000\<close>, else the current ROM bank): a region of that bank whose
  interval contains \<open>pc\<close>, or none when the bank has no such region. A \<open>pc\<close> equal to
  the \<open>end\<close> of a region of the target bank resolves to that region, given that no other
  region of the bank contains it (the regions of a bank are disjoint).
\<close>

theorem resolver_sticky_then_bank_lookup:
  "(stickyHit r pc bnk \<longrightarrow> getCurrentFunctionRegion r pc bnk = currentFnRegion r) \<and>
   (\<not> stickyHit r pc bnk \<longrightarrow>
      getCurrentFunctionRegion r pc bnk = find (inRegion pc) (targetBankRegions r pc bnk) \<and>
      (\<forall>rg. getCurrentFunctionRegion r pc bnk = Some rg \<longrightarrow>
            rg \<in> set (targetBankRegions r pc bnk) \<and> addr rg \<le> pc \<and> pc \<le> end_addr rg) \<and>
      (getCurrentFunctionRegion r pc bnk = None \<longrightarrow>
            (\<forall>rg\<in>set (targetBankRegions r pc bnk). \<not> (addr rg \<le> pc \<and> pc \<le> end_addr rg))) \<and>
      (\<forall>rg. rg \<in> set (targetBankRegions r pc bnk) \<and> addr rg \<le> end_addr rg \<and> pc = end_addr rg \<and>
            (\<forall>other\<in>set (targetBankRegions r pc bnk). other \<noteq> rg \<longrightarrow> \<not> inRegion pc other) \<longrightarrow>
            getCurrentFunctionRegion r pc bnk = Some rg))"
proof (cases "stickyHit r pc bnk")
  case True
  then show ?thesis by (simp add: getCurrentFunctionRegion_eq)
next
  case False
  then have eq: "getCurrentFunctionRegion r pc bnk = find (inRegion pc) (targetBankRegions r pc bnk)"
    by (simp add: getCurrentFunctionRegion_eq)
  have p1: "stickyHit r pc bnk \<longrightarrow> getCurrentFunctionRegion r pc bnk = currentFnRegion r"
    using False by simp
  have a: "\<forall>rg. find (inRegion pc) (targetBankRegions r pc bnk) = Some rg \<longrightarrow>
            rg \<in> set (targetBankRegions r pc bnk) \<and> addr rg \<le> pc \<and> pc \<le> end_addr rg"
    by (intro allI impI) (rule find_inRegion_Some)
  have b: "find (inRegion pc) (targetBankRegions r pc bnk) = None \<longrightarrow>
            (\<forall>rg\<in>set (targetBankRegions r pc bnk). \<not> (addr rg \<le> pc \<and> pc \<le> end_addr rg))"
    by (intro impI) (rule find_inRegion_None)
  have c: "\<forall>rg. rg \<in> set (targetBankRegions r pc bnk) \<and> addr rg \<le> end_addr rg \<and> pc = end_addr rg \<and>
            (\<forall>other\<in>set (targetBankRegions r pc bnk). other \<noteq> rg \<longrightarrow> \<not> inRegion pc other) \<longrightarrow>
            find (inRegion pc) (targetBankRegions r pc bnk) = Some rg"
    by (intro allI impI, elim conjE, rule find_inRegion_at_end)
  show ?thesis
    apply (rule conjI)
     apply (rule p1)
    apply (rule impI)
    apply (unfold eq)
    apply (intro conjI)
       apply (rule refl)
      apply (rule a)
     apply (rule b)
    apply (rule c)
    done
qed


theorem resolver_sticky_then_bank_lookup_witness:
  "\<not> stickyHit demoRunner 0x1FF 1 \<and>
   \<lparr>symbol = ''_main'', addr = 0x150, bank = 0, end_addr = 0x1FF\<rparr> \<in> set (targetBankRegions demoRunner 0x1FF 1) \<and>
   getCurrentFunctionRegion demoRunner 0x1FF 1
     = Some \<lparr>symbol = ''_main'', addr = 0x150, bank = 0, end_addr = 0x1FF\<rparr> \<and>
   stickyHit stickyRunner 0x4105 1 \<and>
   getCurrentFunctionRegion stickyRunner 0x4105 1 = currentFnRegion stickyRunner"
proof -
  have a: "\<not> stickyHit demoRunner 0x1FF 1" by code_simp
  have b: "\<lparr>symbol = ''_main'', addr = 0x150, bank = 0, end_addr = 0x1FF\<rparr>
             \<in> set (targetBankRegions demoRunner 0x1FF 1)" by code_simp
  have c: "\<forall>other\<in>set (targetBankRegions demoRunner 0x1FF 1).
             other \<noteq> \<lparr>symbol = ''_main'', addr = 0x150, bank = 0, end_addr = 0x1FF\<rparr>
               \<longrightarrow> \<not> inRegion 0x1FF other" by code_simp
  have d: "stickyHit stickyRunner 0x4105 1" by code_simp
  have b2: "addr \<lparr>symbol = ''_main'', addr = 0x150, bank = 0, end_addr = 0x1FF\<rparr>
              \<le> end_addr \<lparr>symbol = ''_main'', addr = 0x150, bank = 0, end_addr = 0x1FF\<rparr>"
    by simp
  have b3: "(0x1FF::int) = end_addr \<lparr>symbol = ''_main'', addr = 0x150, bank = 0, end_addr = 0x1FF\<rparr>"
    by simp
  note t = resolver_sticky_then_bank_lookup [of demoRunner "0x1FF" 1, THEN conjunct2, THEN mp, OF a]
  have e: "getCurrentFunctionRegion demoRunner 0x1FF 1
     = Some \<lparr>symbol = ''_main'', addr = 0x150, bank = 0, end_addr = 0x1FF\<rparr>"
    by (rule t [THEN conjunct2, THEN conjunct2, THEN conjunct2, THEN spec, THEN mp,
          OF conjI [OF b conjI [OF b2 conjI [OF b3 c]]]])
  have f: "getCurrentFunctionRegion stickyRunner 0x4105 1 = currentFnRegion stickyRunner"
    by (rule resolver_sticky_then_bank_lookup [of stickyRunner "0x4105" 1, THEN conjunct1, THEN mp, OF d])
  show ?thesis by (intro conjI a b d e f)
qed

subsection \<open>Frames are known by their symbol\<close>

lemma popFramesUntil_same_symbol:
  "symbol fn' = symbol fn \<Longrightarrow> popFramesUntil r (Some fn') c = popFramesUntil r (Some fn) c"
  by (simp add: popFramesUntil_def fnStackContains_def)

text \<open>
  Claim C9. Membership in the call stack and the pop-to operation compare symbol strings
  only: \<open>fnStackContains\<close> holds exactly when some frame has the region's symbol;
  \<open>popFramesUntil\<close> pops (with a close event each) the frames above the topmost frame
  with that symbol and leaves that frame on top; two regions with one symbol give the
  same results whatever their banks and addresses; and a mid-region landing whose symbol
  is on the stack does exactly this pop-to. In the example the frame \<open>_x\<close> was pushed
  at address \<open>0x4100\<close> and the landing is in the region \<open>_x\<close> of bank 2 at \<open>0x4200\<close>.
\<close>

theorem frames_identified_by_symbol:
  fixes fn fn' :: region
  shows "fnStackContains r fn = (symbol fn \<in> set (map symbol (fnStack r))) \<and>
   (fnStackContains r fn \<longrightarrow>
      fnStack (popFramesUntil r (Some fn) c) = dropWhile (\<lambda>f. symbol f \<noteq> symbol fn) (fnStack r) \<and>
      speedscope (popFramesUntil r (Some fn) c) =
        appendEvents (speedscope r)
          (map (\<lambda>f. closeEvent (noiIndex r) (max c (clock f)) f)
             (takeWhile (\<lambda>f. symbol f \<noteq> symbol fn) (fnStack r)))) \<and>
   (symbol fn' = symbol fn \<longrightarrow>
      fnStackContains r fn' = fnStackContains r fn \<and>
      popFramesUntil r (Some fn') c = popFramesUntil r (Some fn) c) \<and>
   (opcode \<noteq> RETI \<and> getCurrentFunctionRegion r pc bnk = Some fn \<and> Some fn \<noteq> currentFnRegion r \<and>
    \<not> List.member IGNORE_SYMBOLS (symbol fn) \<and> pc \<noteq> addr fn \<and> fnStackContains r fn \<longrightarrow>
      onAfterInstruction r opcode pc bnk c =
        (popFramesUntil r (Some fn) c)\<lparr>currentFnRegion := Some fn\<rparr>)"
proof -
  have a: "fnStackContains r fn = (symbol fn \<in> set (map symbol (fnStack r)))"
    by (rule fnStackContains_iff)
  have b: "fnStackContains r fn \<longrightarrow>
      fnStack (popFramesUntil r (Some fn) c) = dropWhile (\<lambda>f. symbol f \<noteq> symbol fn) (fnStack r) \<and>
      speedscope (popFramesUntil r (Some fn) c) =
        appendEvents (speedscope r)
          (map (\<lambda>f. closeEvent (noiIndex r) (max c (clock f)) f)
             (takeWhile (\<lambda>f. symbol f \<noteq> symbol fn) (fnStack r)))"
    by (simp add: popFramesUntil_Some)
  have d: "symbol fn' = symbol fn \<longrightarrow>
      fnStackContains r fn' = fnStackContains r fn \<and>
      popFramesUntil r (Some fn') c = popFramesUntil r (Some fn) c"
  proof
    assume eq: "symbol fn' = symbol fn"
    have "fnStackContains r fn' = fnStackContains r fn"
      using eq by (simp add: fnStackContains_def)
    moreover have "popFramesUntil r (Some fn') c = popFramesUntil r (Some fn) c"
      using eq by (rule popFramesUntil_same_symbol)
    ultimately show "fnStackContains r fn' = fnStackContains r fn \<and>
      popFramesUntil r (Some fn') c = popFramesUntil r (Some fn) c" by (rule conjI)
  qed
  have e: "opcode \<noteq> RETI \<and> getCurrentFunctionRegion r pc bnk = Some fn \<and> Some fn \<noteq> currentFnRegion r \<and>
    \<not> List.member IGNORE_SYMBOLS (symbol fn) \<and> pc \<noteq> addr fn \<and> fnStackContains r fn \<longrightarrow>
      onAfterInstruction r opcode pc bnk c =
        (popFramesUntil r (Some fn) c)\<lparr>currentFnRegion := Some fn\<rparr>"
    by (simp add: onAfterInstruction_def)
  show ?thesis
    apply (intro conjI)
       apply (rule a)
      apply (rule b)
     apply (rule d)
    apply (rule e)
    done
qed

theorem frames_identified_by_symbol_witness:
  "(0x47::int) \<noteq> RETI \<and> getCurrentFunctionRegion bankedRunner 0x4205 2 = Some xBank2 \<and>
   Some xBank2 \<noteq> currentFnRegion bankedRunner \<and>
   \<not> List.member IGNORE_SYMBOLS (symbol xBank2) \<and> (0x4205::int) \<noteq> addr xBank2 \<and>
   fnStackContains bankedRunner xBank2 \<and>
   map addr (fnStack bankedRunner) = [0x200, 0x4100, 0x150] \<and>
   onAfterInstruction bankedRunner 0x47 0x4205 2 400 =
     (popFramesUntil bankedRunner (Some xBank2) 400)\<lparr>currentFnRegion := Some xBank2\<rparr> \<and>
   map addr (fnStack (popFramesUntil bankedRunner (Some xBank2) 400)) = [0x4100, 0x150]"
proof -
  have a: "(0x47::int) \<noteq> RETI" by code_simp
  have b: "getCurrentFunctionRegion bankedRunner 0x4205 2 = Some xBank2" by code_simp
  have c: "Some xBank2 \<noteq> currentFnRegion bankedRunner" by code_simp
  have d: "\<not> List.member IGNORE_SYMBOLS (symbol xBank2)" by code_simp
  have e: "(0x4205::int) \<noteq> addr xBank2" by code_simp
  have f: "fnStackContains bankedRunner xBank2" by code_simp
  have g: "map addr (fnStack bankedRunner) = [0x200, 0x4100, 0x150]" by code_simp
  have h: "map addr (dropWhile (\<lambda>f. symbol f \<noteq> symbol xBank2) (fnStack bankedRunner)) = [0x4100, 0x150]"
    by code_simp
  note t = frames_identified_by_symbol [of bankedRunner xBank2 400 xBank2 "0x47" "0x4205" 2]
  have i: "onAfterInstruction bankedRunner 0x47 0x4205 2 400 =
     (popFramesUntil bankedRunner (Some xBank2) 400)\<lparr>currentFnRegion := Some xBank2\<rparr>"
    by (rule t [THEN conjunct2, THEN conjunct2, THEN conjunct2, THEN mp,
          OF conjI [OF a conjI [OF b conjI [OF c conjI [OF d conjI [OF e f]]]]]])
  have j: "fnStack (popFramesUntil bankedRunner (Some xBank2) 400)
             = dropWhile (\<lambda>f. symbol f \<noteq> symbol xBank2) (fnStack bankedRunner)"
    by (rule t [THEN conjunct2, THEN conjunct1, THEN mp, OF f, THEN conjunct1])
  have k: "map addr (fnStack (popFramesUntil bankedRunner (Some xBank2) 400)) = [0x4100, 0x150]"
    unfolding j by (rule h)
  show ?thesis by (intro conjI a b c d e f g i k)
qed

subsection \<open>A mid-region landing in bank 0\<close>

text \<open>
  Claim C10. A mid-region landing is an instruction other than \<open>RETI\<close> after which the
  resolver returns a region that is not the cached one, does not carry an ignored symbol
  and does not start at \<open>pc\<close>. When \<open>pc < 0x4000\<close>, the region's symbol is not on the
  call stack and no interrupt is in flight, the hook changes the cached region to the
  landed region and nothing else: call stack, interrupt stack and trace stay as they are.
\<close>

theorem mid_region_landing_bank0_updates_cache_only:
  assumes "opcode \<noteq> RETI"
    and "getCurrentFunctionRegion r pc bnk = Some newFn"
    and "Some newFn \<noteq> currentFnRegion r"
    and "\<not> List.member IGNORE_SYMBOLS (symbol newFn)"
    and "pc \<noteq> addr newFn"
    and "pc < 0x4000"
    and "\<not> fnStackContains r newFn"
    and "interruptStack r = []"
  shows "onAfterInstruction r opcode pc bnk clockNow = r\<lparr>currentFnRegion := Some newFn\<rparr> \<and>
         fnStack (onAfterInstruction r opcode pc bnk clockNow) = fnStack r \<and>
         interruptStack (onAfterInstruction r opcode pc bnk clockNow) = interruptStack r \<and>
         speedscope (onAfterInstruction r opcode pc bnk clockNow) = speedscope r \<and>
         currentFnRegion (onAfterInstruction r opcode pc bnk clockNow) = Some newFn \<and>
         currentFnRegion (onAfterInstruction r opcode pc bnk clockNow) \<noteq> currentFnRegion r"
proof -
  have eq: "onAfterInstruction r opcode pc bnk clockNow = r\<lparr>currentFnRegion := Some newFn\<rparr>"
    using assms by (simp add: onAfterInstruction_def)
  show ?thesis unfolding eq using assms(3) by simp
qed

theorem mid_region_landing_bank0_updates_cache_only_witness:
  "(0xC9::int) \<noteq> RETI \<and> getCurrentFunctionRegion demoRunner 0x155 1 = Some mainRegion \<and>
   Some mainRegion \<noteq> currentFnRegion demoRunner \<and>
   \<not> List.member IGNORE_SYMBOLS (symbol mainRegion) \<and> (0x155::int) \<noteq> addr mainRegion \<and>
   (0x155::int) < 0x4000 \<and> \<not> fnStackContains demoRunner mainRegion \<and>
   interruptStack demoRunner = [] \<and>
   onAfterInstruction demoRunner 0xC9 0x155 1 500 = demoRunner\<lparr>currentFnRegion := Some mainRegion\<rparr>"
proof -
  have a: "(0xC9::int) \<noteq> RETI" by code_simp
  have b: "getCurrentFunctionRegion demoRunner 0x155 1 = Some mainRegion" by code_simp
  have c: "Some mainRegion \<noteq> currentFnRegion demoRunner" by code_simp
  have d: "\<not> List.member IGNORE_SYMBOLS (symbol mainRegion)" by code_simp
  have e: "(0x155::int) \<noteq> addr mainRegion" by code_simp
  have f: "(0x155::int) < 0x4000" by simp
  have g: "\<not> fnStackContains demoRunner mainRegion" by code_simp
  have h: "interruptStack demoRunner = []" by code_simp
  have i: "onAfterInstruction demoRunner 0xC9 0x155 1 500 = demoRunner\<lparr>currentFnRegion := Some mainRegion\<rparr>"
    by (rule mid_region_landing_bank0_updates_cache_only [OF a b c d e f g h, of 500, THEN conjunct1])
  show ?thesis by (intro conjI a b c d e f g h i)
qed


section \<open>Properties of finalizeTrace\<close>

subsection \<open>The state of the filter\<close>

lemma stackOf_update [simp]: "stackOf (AList.update k v sbf) = (stackOf sbf)(k := v)"
  by (rule ext) (simp add: stackOf_def update_conv')

lemma openIdx_Nil [simp]: "openIdx [] = []"
  by (simp add: openIdx_def)

lemma openIdx_Cons [simp]: "openIdx ((k, s) # sbf) = s @ openIdx sbf"
  by (simp add: openIdx_def)

lemma stackOf_Nil [simp]: "stackOf [] f = []"
  by (simp add: stackOf_def)

lemma stackOf_Cons [simp]: "stackOf ((k, s) # sbf) f = (if f = k then s else stackOf sbf f)"
  by (simp add: stackOf_def)

lemma stackOf_subset: "set (stackOf sbf f) \<subseteq> set (openIdx sbf)"
  by (induction sbf) (auto split: if_splits)

lemma update_push_Cons:
  "AList.update k (i # stackOf ((k', s) # sbf) k) ((k', s) # sbf) =
     (if k' = k then (k, i # s) # sbf else (k', s) # AList.update k (i # stackOf sbf k) sbf)"
  by simp

lemma openIdx_push:
  "set (openIdx (AList.update k (i # stackOf sbf k) sbf)) = insert i (set (openIdx sbf))"
proof (induction sbf)
  case Nil
  show ?case by simp
next
  case (Cons p sbf)
  obtain k' s where p: "p = (k', s)" by (cases p)
  show ?case
    unfolding p update_push_Cons using Cons.IH by (cases "k' = k") auto
qed

lemma distinct_openIdx_push:
  "distinct (openIdx sbf) \<Longrightarrow> i \<notin> set (openIdx sbf) \<Longrightarrow>
   distinct (openIdx (AList.update k (i # stackOf sbf k) sbf))"
proof (induction sbf)
  case Nil
  show ?case by simp
next
  case (Cons p sbf)
  obtain k' s where p: "p = (k', s)" by (cases p)
  show ?case
    unfolding p update_push_Cons using Cons.IH Cons.prems openIdx_push [of k i sbf]
    by (cases "k' = k") (auto simp add: p)
qed

lemma openIdx_pop_subset:
  "map_of sbf k = Some (oi # rest) \<Longrightarrow>
   set (openIdx (AList.update k rest sbf)) \<subseteq> set (openIdx sbf)"
  by (induction sbf) (auto split: if_splits)

lemma openIdx_pop_superset:
  "map_of sbf k = Some (oi # rest) \<Longrightarrow>
   set (openIdx sbf) \<subseteq> insert oi (set (openIdx (AList.update k rest sbf)))"
  by (induction sbf) (auto split: if_splits)

lemma distinct_openIdx_pop:
  "map_of sbf k = Some (oi # rest) \<Longrightarrow> distinct (openIdx sbf) \<Longrightarrow>
   distinct (openIdx (AList.update k rest sbf)) \<and> oi \<notin> set (openIdx (AList.update k rest sbf))"
proof (induction sbf)
  case Nil
  then show ?case by simp
next
  case (Cons p sbf)
  obtain k' s where p: "p = (k', s)" by (cases p)
  show ?case
  proof (cases "k' = k")
    case True
    with Cons.prems p show ?thesis by auto
  next
    case False
    with Cons.prems p have m: "map_of sbf k = Some (oi # rest)" and d: "distinct (openIdx sbf)"
      by auto
    from m have "oi \<in> set (stackOf sbf k)" by (simp add: stackOf_def)
    with stackOf_subset have o: "oi \<in> set (openIdx sbf)" by blast
    from Cons.IH [OF m d] openIdx_pop_subset [OF m] Cons.prems(2) p False o
    show ?thesis by auto
  qed
qed

lemma fold_set_True_length [simp]:
  "length (fold (\<lambda>j inc2. inc2[j := True]) js inc) = length inc"
  by (induction js arbitrary: inc) auto

lemma fold_set_True_nth:
  "j < length inc \<Longrightarrow> fold (\<lambda>k inc2. inc2[k := True]) js inc ! j = (inc ! j \<or> j \<in> set js)"
proof (induction js arbitrary: inc)
  case Nil
  then show ?case by simp
next
  case (Cons a js)
  then show ?case by (cases "a = j") simp_all
qed

lemma includeRemaining_fold:
  "includeRemaining inc sbf = fold (\<lambda>j inc2. inc2[j := True]) (openIdx sbf) inc"
  by (induction sbf arbitrary: inc) (auto simp add: includeRemaining_def)

lemma includeRemaining_length [simp]: "length (includeRemaining inc sbf) = length inc"
  by (simp add: includeRemaining_fold)

lemma includeRemaining_nth:
  "j < length inc \<Longrightarrow> includeRemaining inc sbf ! j = (inc ! j \<or> j \<in> set (openIdx sbf))"
  by (simp add: includeRemaining_fold fold_set_True_nth)

lemma finalFlags_Nil [simp]: "finalFlags c [] i inc sbf = includeRemaining inc sbf"
  by (simp add: finalFlags_def)

lemma finalFlags_Open:
  "etype ev = OpenEv \<Longrightarrow>
   finalFlags c (ev # evs) i inc sbf =
     finalFlags c evs (Suc i) inc (AList.update (frame ev) (i # stackOf sbf (frame ev)) sbf)"
  by (simp add: finalFlags_def stackOf_def Let_def)

lemma finalFlags_Close_unmatched:
  "etype ev = CloseEv \<Longrightarrow> stackOf sbf (frame ev) = [] \<Longrightarrow>
   finalFlags c (ev # evs) i inc sbf = finalFlags c evs (Suc i) inc sbf"
  by (simp add: finalFlags_def stackOf_def split: option.splits list.splits)

lemma finalFlags_Close_matched:
  "etype ev = CloseEv \<Longrightarrow> stackOf sbf (frame ev) = oi # rest \<Longrightarrow>
   finalFlags c (ev # evs) i inc sbf =
     finalFlags c evs (Suc i) (if at ev \<ge> c then inc[oi := True, i := True] else inc)
       (AList.update (frame ev) rest sbf)"
  by (simp add: finalFlags_def stackOf_def Let_def split: option.splits list.splits)

lemma stackOf_Cons_map_of: "stackOf sbf k = oi # rest \<Longrightarrow> map_of sbf k = Some (oi # rest)"
  by (simp add: stackOf_def split: option.splits)

lemma finalFlags_length [simp]: "length (finalFlags c evs i inc sbf) = length inc"
proof (induction evs arbitrary: i inc sbf)
  case Nil
  then show ?case by simp
next
  case (Cons ev evs)
  show ?case
  proof (cases "etype ev")
    case OpenEv
    then show ?thesis by (simp add: finalFlags_Open Cons.IH)
  next
    case CloseEv
    then show ?thesis
      by (cases "stackOf sbf (frame ev)")
         (simp_all add: finalFlags_Close_unmatched finalFlags_Close_matched Cons.IH)
  qed
qed

lemma nth_update_True: "j < length xs \<Longrightarrow> xs ! j \<Longrightarrow> xs[k := True] ! j"
  by (cases "k = j") simp_all

lemma finalFlags_mono:
  "j < length inc \<Longrightarrow> inc ! j \<Longrightarrow> finalFlags c evs i inc sbf ! j"
proof (induction evs arbitrary: i inc sbf)
  case Nil
  then show ?case by (simp add: includeRemaining_nth)
next
  case (Cons ev evs)
  note IH = Cons.IH and prems = Cons.prems
  show ?case
  proof (cases "etype ev")
    case OpenEv
    then show ?thesis using IH prems by (simp add: finalFlags_Open)
  next
    case CloseEv
    show ?thesis
    proof (cases "stackOf sbf (frame ev)")
      case Nil
      then show ?thesis using CloseEv IH prems by (simp add: finalFlags_Close_unmatched)
    next
      case (Cons oi rest)
      have "(if at ev \<ge> c then inc[oi := True, i := True] else inc) ! j"
        using prems by (simp add: nth_update_True)
      moreover have "j < length (if at ev \<ge> c then inc[oi := True, i := True] else inc)"
        using prems by simp
      ultimately have "finalFlags c evs (Suc i) (if at ev \<ge> c then inc[oi := True, i := True] else inc)
         (AList.update (frame ev) rest sbf) ! j"
        by (rule IH [rotated])
      then show ?thesis
        using CloseEv Cons by (simp only: finalFlags_Close_matched)
    qed
  qed
qed

lemma walkInv_init: "walkInv 0 (replicate n False) []"
  by (simp add: walkInv_def)

lemma walkInv_Open:
  assumes "walkInv i inc sbf" and "i < length inc"
  shows "walkInv (Suc i) inc (AList.update f (i # stackOf sbf f) sbf)"
proof -
  from assms(1) have d: "distinct (openIdx sbf)"
    and b: "\<forall>j\<in>set (openIdx sbf). j < i \<and> \<not> inc ! j"
    and z: "\<forall>j. i \<le> j \<longrightarrow> j < length inc \<longrightarrow> \<not> inc ! j"
    by (simp_all add: walkInv_def)
  from b have "i \<notin> set (openIdx sbf)" by auto
  with d have "distinct (openIdx (AList.update f (i # stackOf sbf f) sbf))"
    by (rule distinct_openIdx_push)
  moreover have "\<forall>j\<in>set (openIdx (AList.update f (i # stackOf sbf f) sbf)). j < Suc i \<and> \<not> inc ! j"
    using b z assms(2) by (auto simp add: openIdx_push less_Suc_eq)
  moreover have "\<forall>j. Suc i \<le> j \<longrightarrow> j < length inc \<longrightarrow> \<not> inc ! j"
    using z by auto
  ultimately show ?thesis by (simp add: walkInv_def)
qed

lemma walkInv_Close_unmatched:
  assumes "walkInv i inc sbf"
  shows "walkInv (Suc i) inc sbf"
  using assms by (auto simp add: walkInv_def less_Suc_eq)

lemma walkInv_Close_matched:
  assumes "walkInv i inc sbf" and "stackOf sbf f = oi # rest"
  shows "walkInv (Suc i) (if c \<le> a then inc[oi := True, i := True] else inc) (AList.update f rest sbf)"
proof -
  from assms(1) have d: "distinct (openIdx sbf)"
    and b: "\<forall>j\<in>set (openIdx sbf). j < i \<and> \<not> inc ! j"
    and z: "\<forall>j. i \<le> j \<longrightarrow> j < length inc \<longrightarrow> \<not> inc ! j"
    by (simp_all add: walkInv_def)
  from assms(2) have m: "map_of sbf f = Some (oi # rest)" by (rule stackOf_Cons_map_of)
  from distinct_openIdx_pop [OF m d]
  have d': "distinct (openIdx (AList.update f rest sbf))"
    and n: "oi \<notin> set (openIdx (AList.update f rest sbf))" by simp_all
  have sub: "set (openIdx (AList.update f rest sbf)) \<subseteq> set (openIdx sbf)"
    using m by (rule openIdx_pop_subset)
  have oi: "oi \<in> set (openIdx sbf)"
    using assms(2) stackOf_subset [of sbf f] by auto
  with b have oi_lt: "oi < i" by blast
  let ?inc = "if c \<le> a then inc[oi := True, i := True] else inc"
  have b': "\<forall>j\<in>set (openIdx (AList.update f rest sbf)). j < Suc i \<and> \<not> ?inc ! j"
  proof
    fix j assume j: "j \<in> set (openIdx (AList.update f rest sbf))"
    with sub b have "j < i" and "\<not> inc ! j" by auto
    moreover from j n have "j \<noteq> oi" by auto
    ultimately show "j < Suc i \<and> \<not> ?inc ! j" by simp
  qed
  have z': "\<forall>j. Suc i \<le> j \<longrightarrow> j < length ?inc \<longrightarrow> \<not> ?inc ! j"
    using z oi_lt by auto
  from d' b' z' show ?thesis by (simp only: walkInv_def)
qed

lemma finalFlags_stable:
  "\<forall>k\<in>set (openIdx sbf). k < i \<Longrightarrow> j < i \<Longrightarrow> j \<notin> set (openIdx sbf) \<Longrightarrow> j < length inc \<Longrightarrow>
   finalFlags c evs i inc sbf ! j = inc ! j"
proof (induction evs arbitrary: i inc sbf)
  case Nil
  then show ?case by (simp add: includeRemaining_nth)
next
  case (Cons ev evs)
  note IH = Cons.IH and prems = Cons.prems
  show ?case
  proof (cases "etype ev")
    case OpenEv
    have "finalFlags c evs (Suc i) inc (AList.update (frame ev) (i # stackOf sbf (frame ev)) sbf) ! j = inc ! j"
      using prems by (intro IH) (auto simp add: openIdx_push)
    then show ?thesis using OpenEv by (simp add: finalFlags_Open)
  next
    case CloseEv
    show ?thesis
    proof (cases "stackOf sbf (frame ev)")
      case Nil
      have "finalFlags c evs (Suc i) inc sbf ! j = inc ! j"
        using prems by (intro IH) auto
      then show ?thesis using CloseEv Nil by (simp add: finalFlags_Close_unmatched)
    next
      case (Cons oi rest)
      from Cons have m: "map_of sbf (frame ev) = Some (oi # rest)" by (rule stackOf_Cons_map_of)
      have sub: "set (openIdx (AList.update (frame ev) rest sbf)) \<subseteq> set (openIdx sbf)"
        using m by (rule openIdx_pop_subset)
      have oi: "oi \<in> set (openIdx sbf)"
        using Cons stackOf_subset [of sbf "frame ev"] by auto
      with prems have ne: "j \<noteq> oi" "j \<noteq> i" by auto
      let ?inc = "if c \<le> at ev then inc[oi := True, i := True] else inc"
      have bound: "\<forall>k\<in>set (openIdx (AList.update (frame ev) rest sbf)). k < Suc i"
        using sub prems(1) by (blast intro: less_SucI)
      have notin: "j \<notin> set (openIdx (AList.update (frame ev) rest sbf))"
        using sub prems(3) by blast
      have "finalFlags c evs (Suc i) ?inc (AList.update (frame ev) rest sbf) ! j = ?inc ! j"
        using bound notin prems(2,4) by (intro IH) auto
      moreover have "?inc ! j = inc ! j" using ne by simp
      ultimately show ?thesis using CloseEv Cons by (simp only: finalFlags_Close_matched)
    qed
  qed
qed

text \<open>What the filter decides at a close event is final.\<close>

lemma flag_close_unmatched:
  assumes "walkInv i inc sbf" and "i < length inc"
    and "etype ev = CloseEv" and "stackOf sbf (frame ev) = []"
  shows "\<not> finalFlags c (ev # evs) i inc sbf ! i"
proof -
  from assms(1) have b: "\<forall>j\<in>set (openIdx sbf). j < i \<and> \<not> inc ! j"
    and z: "\<forall>j. i \<le> j \<longrightarrow> j < length inc \<longrightarrow> \<not> inc ! j"
    by (simp_all add: walkInv_def)
  have "finalFlags c evs (Suc i) inc sbf ! i = inc ! i"
    using b assms(2) by (intro finalFlags_stable) auto
  with z assms show ?thesis by (simp add: finalFlags_Close_unmatched)
qed

lemma flag_close_matched:
  assumes "walkInv i inc sbf" and "i < length inc"
    and "etype ev = CloseEv" and "stackOf sbf (frame ev) = oi # rest"
  shows "oi < i \<and> finalFlags c (ev # evs) i inc sbf ! i = (c \<le> at ev)
         \<and> finalFlags c (ev # evs) i inc sbf ! oi = (c \<le> at ev)"
proof -
  from assms(1) have d: "distinct (openIdx sbf)"
    and b: "\<forall>j\<in>set (openIdx sbf). j < i \<and> \<not> inc ! j"
    and z: "\<forall>j. i \<le> j \<longrightarrow> j < length inc \<longrightarrow> \<not> inc ! j"
    by (simp_all add: walkInv_def)
  from assms(4) have m: "map_of sbf (frame ev) = Some (oi # rest)" by (rule stackOf_Cons_map_of)
  from distinct_openIdx_pop [OF m d]
  have n: "oi \<notin> set (openIdx (AList.update (frame ev) rest sbf))" by simp
  have sub: "set (openIdx (AList.update (frame ev) rest sbf)) \<subseteq> set (openIdx sbf)"
    using m by (rule openIdx_pop_subset)
  have oi: "oi \<in> set (openIdx sbf)"
    using assms(4) stackOf_subset [of sbf "frame ev"] by auto
  with b have oi_lt: "oi < i" and oi_f: "\<not> inc ! oi" by auto
  from z assms(2) have i_f: "\<not> inc ! i" by auto
  let ?sbf = "AList.update (frame ev) rest sbf"
  have eq: "finalFlags c (ev # evs) i inc sbf =
      finalFlags c evs (Suc i) (if c \<le> at ev then inc[oi := True, i := True] else inc) ?sbf"
    using assms(3,4) by (rule finalFlags_Close_matched)
  show ?thesis
  proof (cases "c \<le> at ev")
    case True
    have "finalFlags c evs (Suc i) (inc[oi := True, i := True]) ?sbf ! i"
      using assms(2) by (intro finalFlags_mono) simp_all
    moreover have "finalFlags c evs (Suc i) (inc[oi := True, i := True]) ?sbf ! oi"
      using assms(2) oi_lt by (intro finalFlags_mono) simp_all
    ultimately show ?thesis using True oi_lt eq by simp
  next
    case False
    have bound: "\<forall>k\<in>set (openIdx ?sbf). k < Suc i" using sub b by (blast intro: less_SucI)
    have notin: "i \<notin> set (openIdx ?sbf)" using sub b by blast
    have "finalFlags c evs (Suc i) inc ?sbf ! i = inc ! i"
      using bound notin assms(2) by (intro finalFlags_stable) auto
    moreover have "finalFlags c evs (Suc i) inc ?sbf ! oi = inc ! oi"
      using bound n oi_lt assms(2) by (intro finalFlags_stable) auto
    ultimately show ?thesis using False oi_lt oi_f i_f eq by simp
  qed
qed

subsection \<open>The retained events are balanced\<close>

lemma filterIncluded_Nil [simp]: "filterIncluded [] inc = []"
  by (simp add: filterIncluded_def)

lemma filterIncluded_Cons [simp]:
  "filterIncluded (ev # evs) (b # bs) = (if b then ev # filterIncluded evs bs else filterIncluded evs bs)"
  by (simp add: filterIncluded_def)

lemma filterIncluded_drop:
  "i < length F \<Longrightarrow>
   filterIncluded (ev # evs) (drop i F) =
     (if F ! i then ev # filterIncluded evs (drop (Suc i) F) else filterIncluded evs (drop (Suc i) F))"
  by (simp add: Cons_nth_drop_Suc [symmetric])

lemma unmatched_Open:
  "etype ev = OpenEv \<Longrightarrow>
   fst (snd (matchEvents (ev # evs) i sbf)) =
     fst (snd (matchEvents evs (Suc i) (AList.update (frame ev) (i # stackOf sbf (frame ev)) sbf)))"
  by simp

lemma unmatched_Close_matched:
  "etype ev = CloseEv \<Longrightarrow> stackOf sbf (frame ev) = oi # rest \<Longrightarrow>
   fst (snd (matchEvents (ev # evs) i sbf)) =
     fst (snd (matchEvents evs (Suc i) (AList.update (frame ev) rest sbf)))"
  by (simp split: prod.splits)

lemma retained_balanced_aux:
  assumes "walkInv i inc sbf" and "i + length evs = length inc"
    and "\<forall>f. length (stackOf sbf' f)
             = length (filter (\<lambda>j. finalFlags c evs i inc sbf ! j) (stackOf sbf f))"
  shows "fst (snd (matchEvents (filterIncluded evs (drop i (finalFlags c evs i inc sbf))) i' sbf')) = []"
  using assms
proof (induction evs arbitrary: i inc sbf i' sbf')
  case Nil
  then show ?case by simp
next
  case (Cons ev evs)
  note IH = Cons.IH and inv = Cons.prems(1) and len = Cons.prems(2) and rel = Cons.prems(3)
  let ?F = "finalFlags c (ev # evs) i inc sbf"
  from len have i_lt: "i < length inc" by simp
  then have i_ltF: "i < length ?F" by simp
  note fd = filterIncluded_drop [OF i_ltF, of ev evs]
  show ?case
  proof (cases "etype ev")
    case OpenEv
    let ?sbf1 = "AList.update (frame ev) (i # stackOf sbf (frame ev)) sbf"
    have eq: "?F = finalFlags c evs (Suc i) inc ?sbf1" using OpenEv by (rule finalFlags_Open)
    have inv1: "walkInv (Suc i) inc ?sbf1" using inv i_lt by (rule walkInv_Open)
    have len1: "Suc i + length evs = length inc" using len by simp
    show ?thesis
    proof (cases "?F ! i")
      case True
      let ?sbf1' = "AList.update (frame ev) (i' # stackOf sbf' (frame ev)) sbf'"
      have rel1: "\<forall>f. length (stackOf ?sbf1' f)
             = length (filter (\<lambda>j. finalFlags c evs (Suc i) inc ?sbf1 ! j) (stackOf ?sbf1 f))"
        using rel True unfolding eq by simp
      from IH [OF inv1 len1 rel1, of "Suc i'"] True OpenEv show ?thesis
        unfolding eq fd [unfolded eq] by simp
    next
      case False
      have rel1: "\<forall>f. length (stackOf sbf' f)
             = length (filter (\<lambda>j. finalFlags c evs (Suc i) inc ?sbf1 ! j) (stackOf ?sbf1 f))"
        using rel False unfolding eq by simp
      from IH [OF inv1 len1 rel1, of i'] False show ?thesis
        unfolding eq fd [unfolded eq] by simp
    qed
  next
    case CloseEv
    show ?thesis
    proof (cases "stackOf sbf (frame ev)")
      case Nil
      have eq: "?F = finalFlags c evs (Suc i) inc sbf"
        using CloseEv Nil by (rule finalFlags_Close_unmatched)
      have nf: "\<not> ?F ! i" using inv i_lt CloseEv Nil by (rule flag_close_unmatched)
      have inv1: "walkInv (Suc i) inc sbf" using inv by (rule walkInv_Close_unmatched)
      have len1: "Suc i + length evs = length inc" using len by simp
      have rel1: "\<forall>f. length (stackOf sbf' f)
             = length (filter (\<lambda>j. finalFlags c evs (Suc i) inc sbf ! j) (stackOf sbf f))"
        using rel unfolding eq by simp
      from IH [OF inv1 len1 rel1, of i'] nf show ?thesis
        unfolding eq fd [unfolded eq] by simp
    next
      case (Cons oi rest)
      let ?inc1 = "if c \<le> at ev then inc[oi := True, i := True] else inc"
      let ?sbf1 = "AList.update (frame ev) rest sbf"
      have eq: "?F = finalFlags c evs (Suc i) ?inc1 ?sbf1"
        using CloseEv Cons by (rule finalFlags_Close_matched)
      from flag_close_matched [OF inv i_lt CloseEv Cons, of c evs]
      have fi: "?F ! i = (c \<le> at ev)" and fo: "?F ! oi = (c \<le> at ev)" by simp_all
      have inv1: "walkInv (Suc i) ?inc1 ?sbf1" using inv Cons by (rule walkInv_Close_matched)
      have len1: "Suc i + length evs = length ?inc1" using len by simp
      have r0: "length (stackOf sbf' (frame ev)) = length (filter (\<lambda>j. ?F ! j) (oi # rest))"
        using rel [rule_format, of "frame ev"] Cons by simp
      have r1: "f \<noteq> frame ev \<Longrightarrow>
          length (stackOf sbf' f) = length (filter (\<lambda>j. ?F ! j) (stackOf sbf f))" for f
        using rel by simp
      show ?thesis
      proof (cases "c \<le> at ev")
        case True
        from r0 fo True
        obtain oi' rest' where st': "stackOf sbf' (frame ev) = oi' # rest'"
          by (cases "stackOf sbf' (frame ev)") auto
        let ?sbf1' = "AList.update (frame ev) rest' sbf'"
        have r2: "length rest' = length (filter (\<lambda>j. ?F ! j) rest)"
          using r0 fo True st' by simp
        have rel1: "\<forall>f. length (stackOf ?sbf1' f)
             = length (filter (\<lambda>j. finalFlags c evs (Suc i) ?inc1 ?sbf1 ! j) (stackOf ?sbf1 f))"
        proof
          fix f
          show "length (stackOf ?sbf1' f)
             = length (filter (\<lambda>j. finalFlags c evs (Suc i) ?inc1 ?sbf1 ! j) (stackOf ?sbf1 f))"
            using r1 [of f] r2 unfolding eq by (cases "f = frame ev") simp_all
        qed
        from IH [OF inv1 len1 rel1, of "Suc i'"] fi True show ?thesis
          unfolding eq fd [unfolded eq]
          by (simp add: unmatched_Close_matched [OF CloseEv st'] del: matchEvents.simps)
      next
        case False
        have r2: "length (stackOf sbf' (frame ev)) = length (filter (\<lambda>j. ?F ! j) rest)"
          using r0 fo False by simp
        have rel1: "\<forall>f. length (stackOf sbf' f)
             = length (filter (\<lambda>j. finalFlags c evs (Suc i) ?inc1 ?sbf1 ! j) (stackOf ?sbf1 f))"
        proof
          fix f
          show "length (stackOf sbf' f)
             = length (filter (\<lambda>j. finalFlags c evs (Suc i) ?inc1 ?sbf1 ! j) (stackOf ?sbf1 f))"
            using r1 [of f] r2 unfolding eq by (cases "f = frame ev") simp_all
        qed
        from IH [OF inv1 len1 rel1, of i'] fi False show ?thesis
          unfolding eq fd [unfolded eq] by simp
      qed
    qed
  qed
qed

lemma matchEvents_pairs_aux:
  assumes "es = pre @ evs" and "i = length pre"
    and "\<forall>f. \<forall>j\<in>set (stackOf sbf f). j < i \<and> etype (es ! j) = OpenEv \<and> frame (es ! j) = f"
  shows "\<forall>p\<in>set (fst (matchEvents evs i sbf)). pairOk es p"
  using assms
proof (induction evs arbitrary: pre i sbf)
  case Nil
  then show ?case by simp
next
  case (Cons ev evs)
  note IH = Cons.IH and es = Cons.prems(1) and i = Cons.prems(2) and st = Cons.prems(3)
  from es have es1: "es = (pre @ [ev]) @ evs" by simp
  from i have i1: "Suc i = length (pre @ [ev])" by simp
  from es i have ei: "es ! i = ev" by simp
  from es i have il: "i < length es" by simp
  show ?case
  proof (cases "etype ev")
    case OpenEv
    let ?sbf1 = "AList.update (frame ev) (i # stackOf sbf (frame ev)) sbf"
    have st1: "\<forall>f. \<forall>j\<in>set (stackOf ?sbf1 f). j < Suc i \<and> etype (es ! j) = OpenEv \<and> frame (es ! j) = f"
      using st ei OpenEv by (auto simp add: less_Suc_eq)
    from IH [OF es1 i1 st1] OpenEv show ?thesis by simp
  next
    case CloseEv
    show ?thesis
    proof (cases "stackOf sbf (frame ev)")
      case Nil
      have st1: "\<forall>f. \<forall>j\<in>set (stackOf sbf f). j < Suc i \<and> etype (es ! j) = OpenEv \<and> frame (es ! j) = f"
        using st by (auto simp add: less_Suc_eq)
      from IH [OF es1 i1 st1] CloseEv Nil show ?thesis by (simp split: prod.splits)
    next
      case (Cons oi rest)
      let ?sbf1 = "AList.update (frame ev) rest sbf"
      from st [rule_format, of oi "frame ev"] Cons
      have o: "oi < i" "etype (es ! oi) = OpenEv" "frame (es ! oi) = frame ev" by simp_all
      have st1: "\<forall>f. \<forall>j\<in>set (stackOf ?sbf1 f). j < Suc i \<and> etype (es ! j) = OpenEv \<and> frame (es ! j) = f"
      proof (intro allI ballI)
        fix f j assume j: "j \<in> set (stackOf ?sbf1 f)"
        have "j \<in> set (stackOf sbf f)"
          using j Cons by (cases "f = frame ev") auto
        with st show "j < Suc i \<and> etype (es ! j) = OpenEv \<and> frame (es ! j) = f"
          by (auto simp add: less_Suc_eq)
      qed
      have "pairOk es (oi, i)"
        using o ei il CloseEv by (simp add: pairOk_def)
      with IH [OF es1 i1 st1] CloseEv Cons show ?thesis by (simp split: prod.splits)
    qed
  qed
qed

lemma matchedPairs_ok: "\<forall>p\<in>set (matchedPairs es). pairOk es p"
  unfolding matchedPairs_def
  by (rule matchEvents_pairs_aux [of es "[]"]) simp_all

lemma matchEvents_close_cover_aux:
  assumes "es = pre @ evs" and "i = length pre"
  shows "\<forall>ci. i \<le> ci \<and> ci < length es \<and> etype (es ! ci) = CloseEv \<longrightarrow>
           ci \<in> snd ` set (fst (matchEvents evs i sbf)) \<or> ci \<in> set (fst (snd (matchEvents evs i sbf)))"
  using assms
proof (induction evs arbitrary: pre i sbf)
  case Nil
  then show ?case by simp
next
  case (Cons ev evs)
  note IH = Cons.IH and es = Cons.prems(1) and i = Cons.prems(2)
  from es have es1: "es = (pre @ [ev]) @ evs" by simp
  from i have i1: "Suc i = length (pre @ [ev])" by simp
  from es i have ei: "es ! i = ev" by simp
  show ?case
  proof (intro allI impI)
    fix ci assume a: "i \<le> ci \<and> ci < length es \<and> etype (es ! ci) = CloseEv"
    show "ci \<in> snd ` set (fst (matchEvents (ev # evs) i sbf))
          \<or> ci \<in> set (fst (snd (matchEvents (ev # evs) i sbf)))"
    proof (cases "ci = i")
      case True
      with a ei have "etype ev = CloseEv" by simp
      with True show ?thesis
        by (cases "stackOf sbf (frame ev)") (auto split: prod.splits)
    next
      case False
      with a have b: "Suc i \<le> ci \<and> ci < length es \<and> etype (es ! ci) = CloseEv" by simp
      show ?thesis
      proof (cases "etype ev")
        case OpenEv
        from IH [OF es1 i1, rule_format, OF b] OpenEv show ?thesis by simp
      next
        case CloseEv
        show ?thesis
        proof (cases "stackOf sbf (frame ev)")
          case Nil
          from IH [OF es1 i1, rule_format, OF b, of sbf] CloseEv Nil show ?thesis
            by (auto split: prod.splits)
        next
          case (Cons oi rest)
          from IH [OF es1 i1, rule_format, OF b, of "AList.update (frame ev) rest sbf"] CloseEv Cons
          show ?thesis by (auto split: prod.splits)
        qed
      qed
    qed
  qed
qed

lemma close_cover:
  "ci < length es \<Longrightarrow> etype (es ! ci) = CloseEv \<Longrightarrow>
   ci \<in> snd ` set (matchedPairs es) \<or> ci \<in> set (unmatchedCloses es)"
  unfolding matchedPairs_def unmatchedCloses_def
  using matchEvents_close_cover_aux [of es "[]" es 0 "[]"] by simp

lemma includeFlags_finalFlags:
  "includeFlags c evs = finalFlags c evs 0 (replicate (length evs) False) []"
  by (simp add: includeFlags_def finalFlags_def)

lemma retained_balanced: "unmatchedCloses (filterIncluded es (includeFlags c es)) = []"
  unfolding unmatchedCloses_def includeFlags_finalFlags
  using retained_balanced_aux [of 0 "replicate (length es) False" "[]" es "[]" c 0]
  by (simp add: walkInv_init)

lemma events_finalizeTrace_Some:
  "events (finalizeTrace t (Some c)) =
     filterIncluded (jsSort compareEvents (events t)) (includeFlags c (jsSort compareEvents (events t)))"
  by (simp add: finalizeTrace_def Let_def)

text \<open>
  Claim C5. After \<open>finalizeTrace\<close> has run with a capture-start cycle, walking the
  retained events in order with a LIFO of open indices per frame index leaves no close
  event unmatched: every close event is the second component of a pair, and every pair is
  an open event followed later by a close event with the same frame index. Open events
  may stay unmatched.
\<close>

theorem finalized_events_balanced:
  "unmatchedCloses (events (finalizeTrace t (Some c))) = [] \<and>
   (\<forall>p\<in>set (matchedPairs (events (finalizeTrace t (Some c)))).
      pairOk (events (finalizeTrace t (Some c))) p) \<and>
   (\<forall>ci. ci < length (events (finalizeTrace t (Some c))) \<and>
         etype (events (finalizeTrace t (Some c)) ! ci) = CloseEv \<longrightarrow>
         ci \<in> snd ` set (matchedPairs (events (finalizeTrace t (Some c)))))"
proof -
  have a: "unmatchedCloses (events (finalizeTrace t (Some c))) = []"
    unfolding events_finalizeTrace_Some by (rule retained_balanced)
  have b: "\<forall>p\<in>set (matchedPairs (events (finalizeTrace t (Some c)))).
      pairOk (events (finalizeTrace t (Some c))) p"
    by (rule matchedPairs_ok)
  have d: "\<forall>ci. ci < length (events (finalizeTrace t (Some c))) \<and>
         etype (events (finalizeTrace t (Some c)) ! ci) = CloseEv \<longrightarrow>
         ci \<in> snd ` set (matchedPairs (events (finalizeTrace t (Some c))))"
    using close_cover [of _ "events (finalizeTrace t (Some c))"] a by auto
  show ?thesis by (intro conjI a b d)
qed

theorem finalized_events_balanced_witness:
  "events (finalizeTrace demoTrace (Some 100)) =
     [mkOpen 0 10, mkClose 0 150 10, mkOpen 2 200, mkClose 2 200 200, mkOpen 1 250] \<and>
   unmatchedCloses (events (finalizeTrace demoTrace (Some 100))) = [] \<and>
   matchedPairs (events (finalizeTrace demoTrace (Some 100))) = [(0, 1), (2, 3)]"
proof -
  have a: "events (finalizeTrace demoTrace (Some 100)) =
     [mkOpen 0 10, mkClose 0 150 10, mkOpen 2 200, mkClose 2 200 200, mkOpen 1 250]"
    by code_simp
  have b: "unmatchedCloses (events (finalizeTrace demoTrace (Some 100))) = []"
    by (rule finalized_events_balanced [of demoTrace 100, THEN conjunct1])
  have d: "matchedPairs (events (finalizeTrace demoTrace (Some 100))) = [(0, 1), (2, 3)]"
    by code_simp
  show ?thesis by (intro conjI a b d)
qed

section \<open>Properties of the sort\<close>

lemma set_insertBy [simp]: "set (insertBy cmp x xs) = insert x (set xs)"
  by (induction xs) auto

lemma length_insertBy [simp]: "length (insertBy cmp x xs) = Suc (length xs)"
  by (induction xs) auto

lemma set_jsSort [simp]: "set (jsSort cmp xs) = set xs"
  by (induction xs) (simp_all add: jsSort_def)

lemma length_jsSort [simp]: "length (jsSort cmp xs) = length xs"
  by (induction xs) (simp_all add: jsSort_def)

lemma jsSort_Cons: "jsSort cmp (x # xs) = insertBy cmp x (jsSort cmp xs)"
  by (simp add: jsSort_def)

lemma sorted_insertBy:
  assumes trans: "\<And>x y z. cmp x y \<le> 0 \<Longrightarrow> cmp y z \<le> 0 \<Longrightarrow> cmp x z \<le> 0"
    and total: "\<And>x y. cmp x y \<le> 0 \<or> cmp y x \<le> 0"
  shows "sorted_wrt (\<lambda>a b. cmp a b \<le> 0) xs \<Longrightarrow> sorted_wrt (\<lambda>a b. cmp a b \<le> 0) (insertBy cmp x xs)"
proof (induction xs)
  case Nil
  then show ?case by simp
next
  case (Cons y ys)
  show ?case
  proof (cases "cmp x y \<le> 0")
    case True
    with Cons.prems trans show ?thesis by auto
  next
    case False
    with total [of x y] have "cmp y x \<le> 0" by simp
    with Cons False show ?thesis by auto
  qed
qed

lemma sorted_jsSort:
  assumes trans: "\<And>x y z. cmp x y \<le> 0 \<Longrightarrow> cmp y z \<le> 0 \<Longrightarrow> cmp x z \<le> 0"
    and total: "\<And>x y. cmp x y \<le> 0 \<or> cmp y x \<le> 0"
  shows "sorted_wrt (\<lambda>a b. cmp a b \<le> 0) (jsSort cmp xs)"
proof (induction xs)
  case Nil
  show ?case by (simp add: jsSort_def)
next
  case (Cons x xs)
  show ?case unfolding jsSort_Cons
    using trans total Cons.IH by (rule sorted_insertBy)
qed

lemma insertBy_sorted_id:
  "\<forall>y\<in>set xs. cmp x y \<le> 0 \<Longrightarrow> insertBy cmp x xs = x # xs"
  by (cases xs) simp_all

lemma jsSort_sorted_id:
  "sorted_wrt (\<lambda>a b. cmp a b \<le> 0) xs \<Longrightarrow> jsSort cmp xs = xs"
proof (induction xs)
  case Nil
  show ?case by (simp add: jsSort_def)
next
  case (Cons x xs)
  then show ?case by (simp add: jsSort_Cons insertBy_sorted_id)
qed

lemma compareEvents_trans:
  "compareEvents x y \<le> 0 \<Longrightarrow> compareEvents y z \<le> 0 \<Longrightarrow> compareEvents x z \<le> 0"
  by (cases "etype x"; cases "etype y"; cases "etype z")
     (auto simp add: compareEvents_def split: if_splits)

lemma compareEvents_total: "compareEvents x y \<le> 0 \<or> compareEvents y x \<le> 0"
  by (cases "etype x"; cases "etype y") (auto simp add: compareEvents_def)

lemma sorted_sortEvents: "sorted_wrt (\<lambda>a b. compareEvents a b \<le> 0) (jsSort compareEvents evs)"
  by (rule sorted_jsSort) (erule (1) compareEvents_trans, rule compareEvents_total)

lemma filterIncluded_subset: "set (filterIncluded evs inc) \<subseteq> set evs"
  by (auto simp add: filterIncluded_def dest: set_zip_leftD)

lemma sorted_filterIncluded:
  "sorted_wrt P evs \<Longrightarrow> sorted_wrt P (filterIncluded evs inc)"
proof (induction evs arbitrary: inc)
  case Nil
  then show ?case by simp
next
  case (Cons ev evs)
  show ?case
  proof (cases inc)
    case Nil
    then show ?thesis by (simp add: filterIncluded_def)
  next
    case (Cons b bs)
    from Cons.prems have "sorted_wrt P evs" and h: "\<forall>y\<in>set evs. P ev y" by simp_all
    then have "sorted_wrt P (filterIncluded evs bs)" by (intro Cons.IH)
    with h filterIncluded_subset [of evs bs] Cons show ?thesis by auto
  qed
qed

lemma filterIncluded_all:
  "length inc = length evs \<Longrightarrow> \<forall>j<length inc. inc ! j \<Longrightarrow> filterIncluded evs inc = evs"
proof (induction evs arbitrary: inc)
  case Nil
  then show ?case by simp
next
  case (Cons ev evs)
  then obtain b bs where inc: "inc = b # bs" by (cases inc) auto
  with Cons.prems have "length bs = length evs" and "\<forall>j<length bs. bs ! j" and "b" by auto
  with Cons.IH inc show ?case by simp
qed

subsection \<open>Finalizing twice\<close>

lemma retained_closes_late_aux:
  assumes "walkInv i inc sbf" and "i + length evs = length inc"
  shows "\<forall>e\<in>set (filterIncluded evs (drop i (finalFlags c evs i inc sbf))).
           etype e = CloseEv \<longrightarrow> c \<le> at e"
  using assms
proof (induction evs arbitrary: i inc sbf)
  case Nil
  then show ?case by simp
next
  case (Cons ev evs)
  note IH = Cons.IH and inv = Cons.prems(1) and len = Cons.prems(2)
  let ?F = "finalFlags c (ev # evs) i inc sbf"
  from len have i_lt: "i < length inc" by simp
  then have i_ltF: "i < length ?F" by simp
  note fd = filterIncluded_drop [OF i_ltF, of ev evs]
  have len1: "Suc i + length evs = length inc" using len by simp
  show ?case
  proof (cases "etype ev")
    case OpenEv
    let ?sbf1 = "AList.update (frame ev) (i # stackOf sbf (frame ev)) sbf"
    have eq: "?F = finalFlags c evs (Suc i) inc ?sbf1" using OpenEv by (rule finalFlags_Open)
    have inv1: "walkInv (Suc i) inc ?sbf1" using inv i_lt by (rule walkInv_Open)
    from IH [OF inv1 len1] OpenEv show ?thesis
      unfolding eq fd [unfolded eq] by simp
  next
    case CloseEv
    show ?thesis
    proof (cases "stackOf sbf (frame ev)")
      case Nil
      have eq: "?F = finalFlags c evs (Suc i) inc sbf"
        using CloseEv Nil by (rule finalFlags_Close_unmatched)
      have nf: "\<not> ?F ! i" using inv i_lt CloseEv Nil by (rule flag_close_unmatched)
      have inv1: "walkInv (Suc i) inc sbf" using inv by (rule walkInv_Close_unmatched)
      from IH [OF inv1 len1] nf show ?thesis
        unfolding eq fd [unfolded eq] by simp
    next
      case (Cons oi rest)
      let ?inc1 = "if c \<le> at ev then inc[oi := True, i := True] else inc"
      let ?sbf1 = "AList.update (frame ev) rest sbf"
      have eq: "?F = finalFlags c evs (Suc i) ?inc1 ?sbf1"
        using CloseEv Cons by (rule finalFlags_Close_matched)
      from flag_close_matched [OF inv i_lt CloseEv Cons, of c evs]
      have fi: "?F ! i = (c \<le> at ev)" by simp
      have inv1: "walkInv (Suc i) ?inc1 ?sbf1" using inv Cons by (rule walkInv_Close_matched)
      have len2: "Suc i + length evs = length ?inc1" using len by simp
      show ?thesis
      proof (cases "c \<le> at ev")
        case True
        from IH [OF inv1 len2] fi True show ?thesis
          unfolding eq fd [unfolded eq] by simp
      next
        case False
        from IH [OF inv1 len2] fi False show ?thesis
          unfolding eq fd [unfolded eq] by simp
      qed
    qed
  qed
qed

lemma retained_closes_late:
  "\<forall>e\<in>set (filterIncluded es (includeFlags c es)). etype e = CloseEv \<longrightarrow> c \<le> at e"
  unfolding includeFlags_finalFlags
  using retained_closes_late_aux [of 0 "replicate (length es) False" "[]" es c]
  by (simp add: walkInv_init)

lemma all_included_aux:
  assumes "fst (snd (matchEvents evs i sbf)) = []"
    and "\<forall>e\<in>set evs. etype e = CloseEv \<longrightarrow> c \<le> at e"
    and "i + length evs = length inc"
  shows "\<forall>j<length inc. i \<le> j \<or> inc ! j \<or> j \<in> set (openIdx sbf) \<longrightarrow> finalFlags c evs i inc sbf ! j"
  using assms
proof (induction evs arbitrary: i inc sbf)
  case Nil
  then show ?case by (auto simp add: includeRemaining_nth)
next
  case (Cons ev evs)
  note IH = Cons.IH and um = Cons.prems(1) and late = Cons.prems(2) and len = Cons.prems(3)
  from len have i_lt: "i < length inc" by simp
  from late have late1: "\<forall>e\<in>set evs. etype e = CloseEv \<longrightarrow> c \<le> at e" by simp
  show ?case
  proof (cases "etype ev")
    case OpenEv
    let ?sbf1 = "AList.update (frame ev) (i # stackOf sbf (frame ev)) sbf"
    have eq: "finalFlags c (ev # evs) i inc sbf = finalFlags c evs (Suc i) inc ?sbf1"
      using OpenEv by (rule finalFlags_Open)
    have um1: "fst (snd (matchEvents evs (Suc i) ?sbf1)) = []" using um OpenEv by simp
    have len1: "Suc i + length evs = length inc" using len by simp
    show ?thesis
      unfolding eq
    proof (intro allI impI)
      fix j assume j: "j < length inc" and h: "i \<le> j \<or> inc ! j \<or> j \<in> set (openIdx sbf)"
      have "Suc i \<le> j \<or> inc ! j \<or> j \<in> set (openIdx ?sbf1)"
        using h by (cases "j = i") (auto simp add: openIdx_push)
      with IH [OF um1 late1 len1] j show "finalFlags c evs (Suc i) inc ?sbf1 ! j" by blast
    qed
  next
    case CloseEv
    from um CloseEv obtain oi rest where st: "stackOf sbf (frame ev) = oi # rest"
      by (cases "stackOf sbf (frame ev)") (auto split: prod.splits)
    from late CloseEv have c: "c \<le> at ev" by simp
    let ?inc1 = "inc[oi := True, i := True]"
    let ?sbf1 = "AList.update (frame ev) rest sbf"
    have eq: "finalFlags c (ev # evs) i inc sbf = finalFlags c evs (Suc i) ?inc1 ?sbf1"
      using finalFlags_Close_matched [OF CloseEv st, of c evs i inc] c by simp
    have um1: "fst (snd (matchEvents evs (Suc i) ?sbf1)) = []"
      using um unmatched_Close_matched [OF CloseEv st, of evs i] by simp
    have len1: "Suc i + length evs = length ?inc1" using len by simp
    from st have m: "map_of sbf (frame ev) = Some (oi # rest)" by (rule stackOf_Cons_map_of)
    note sup = openIdx_pop_superset [OF m]
    show ?thesis
      unfolding eq
    proof (intro allI impI)
      fix j assume j: "j < length inc" and h: "i \<le> j \<or> inc ! j \<or> j \<in> set (openIdx sbf)"
      have "Suc i \<le> j \<or> ?inc1 ! j \<or> j \<in> set (openIdx ?sbf1)"
      proof (cases "j = i \<or> j = oi")
        case True
        with j have "?inc1 ! j" by (cases "j = i") auto
        then show ?thesis by simp
      next
        case False
        with h sup j show ?thesis by (auto simp add: nth_update_True)
      qed
      moreover have "j < length ?inc1" using j by simp
      ultimately show "finalFlags c evs (Suc i) ?inc1 ?sbf1 ! j"
        using IH [OF um1 late1 len1] by blast
    qed
  qed
qed

lemma all_included:
  assumes "unmatchedCloses es = []" and "\<forall>e\<in>set es. etype e = CloseEv \<longrightarrow> c \<le> at e"
  shows "filterIncluded es (includeFlags c es) = es"
proof -
  have "\<forall>j<length (replicate (length es) False).
          0 \<le> j \<or> replicate (length es) False ! j \<or> j \<in> set (openIdx [])
            \<longrightarrow> finalFlags c es 0 (replicate (length es) False) [] ! j"
    using assms by (intro all_included_aux) (simp_all add: unmatchedCloses_def)
  then have "\<forall>j<length (includeFlags c es). includeFlags c es ! j"
    by (simp add: includeFlags_finalFlags)
  then show ?thesis by (intro filterIncluded_all) (simp_all add: includeFlags_finalFlags)
qed

lemma finalizeTrace_events:
  "events (finalizeTrace t cs) =
     (case cs of
        None \<Rightarrow> jsSort compareEvents (events t)
      | Some c \<Rightarrow> filterIncluded (jsSort compareEvents (events t))
                    (includeFlags c (jsSort compareEvents (events t))))"
  by (simp add: finalizeTrace_def Let_def)

lemma finalizeTrace_fixed:
  assumes "jsSort compareEvents (events t) = events t"
    and "(case cs of None \<Rightarrow> events t | Some c \<Rightarrow> filterIncluded (events t) (includeFlags c (events t)))
           = events t"
    and "events t \<noteq> [] \<longrightarrow> endValue t = Max (set (map at (events t)))"
  shows "finalizeTrace t cs = t"
  using assms by (cases cs) (auto simp add: finalizeTrace_def Let_def)

lemma finalizeTrace_endValue:
  "events (finalizeTrace t cs) \<noteq> [] \<longrightarrow>
     endValue (finalizeTrace t cs) = Max (set (map at (events (finalizeTrace t cs))))"
  by (simp add: finalizeTrace_def Let_def)

text \<open>
  Claim C8. Finalizing a finalized trace with the same capture-start cycle (or again
  without one) returns it unchanged, the event list and \<open>endValue\<close> included.
\<close>

theorem finalizeTrace_idempotent:
  "finalizeTrace (finalizeTrace t cs) cs = finalizeTrace t cs"
proof (rule finalizeTrace_fixed)
  let ?es = "jsSort compareEvents (events t)"
  have sorted_es: "sorted_wrt (\<lambda>a b. compareEvents a b \<le> 0) ?es" by (rule sorted_sortEvents)
  have "sorted_wrt (\<lambda>a b. compareEvents a b \<le> 0) (events (finalizeTrace t cs))"
    unfolding finalizeTrace_events using sorted_es
    by (cases cs) (simp_all add: sorted_filterIncluded)
  then show "jsSort compareEvents (events (finalizeTrace t cs)) = events (finalizeTrace t cs)"
    by (rule jsSort_sorted_id)
  show "(case cs of
           None \<Rightarrow> events (finalizeTrace t cs)
         | Some c \<Rightarrow> filterIncluded (events (finalizeTrace t cs))
                       (includeFlags c (events (finalizeTrace t cs))))
          = events (finalizeTrace t cs)"
  proof (cases cs)
    case None
    then show ?thesis by simp
  next
    case (Some c)
    have "filterIncluded (filterIncluded ?es (includeFlags c ?es))
            (includeFlags c (filterIncluded ?es (includeFlags c ?es)))
          = filterIncluded ?es (includeFlags c ?es)"
      by (rule all_included) (rule retained_balanced, rule retained_closes_late)
    then show ?thesis using Some by (simp add: finalizeTrace_events)
  qed
  show "events (finalizeTrace t cs) \<noteq> [] \<longrightarrow>
     endValue (finalizeTrace t cs) = Max (set (map at (events (finalizeTrace t cs))))"
    by (rule finalizeTrace_endValue)
qed

subsection \<open>What the filter keeps\<close>

lemma pairs_flags_aux:
  assumes "walkInv i inc sbf" and "i + length evs = length inc"
  shows "(\<forall>p\<in>set (fst (matchEvents evs i sbf)).
            i \<le> snd p \<and> snd p < i + length evs \<and>
            finalFlags c evs i inc sbf ! fst p = (c \<le> at (evs ! (snd p - i))) \<and>
            finalFlags c evs i inc sbf ! snd p = (c \<le> at (evs ! (snd p - i)))) \<and>
         (\<forall>ci\<in>set (fst (snd (matchEvents evs i sbf))). \<not> finalFlags c evs i inc sbf ! ci)"
  using assms
proof (induction evs arbitrary: i inc sbf)
  case Nil
  then show ?case by simp
next
  case (Cons ev evs)
  note IH = Cons.IH and inv = Cons.prems(1) and len = Cons.prems(2)
  let ?F = "finalFlags c (ev # evs) i inc sbf"
  from len have i_lt: "i < length inc" by simp
  have shift: "Suc i \<le> k \<Longrightarrow> (ev # evs) ! (k - i) = evs ! (k - Suc i)" for k
    by (simp add: Suc_diff_le)
  show ?case
  proof (cases "etype ev")
    case OpenEv
    let ?sbf1 = "AList.update (frame ev) (i # stackOf sbf (frame ev)) sbf"
    have eq: "?F = finalFlags c evs (Suc i) inc ?sbf1" using OpenEv by (rule finalFlags_Open)
    have inv1: "walkInv (Suc i) inc ?sbf1" using inv i_lt by (rule walkInv_Open)
    have len1: "Suc i + length evs = length inc" using len by simp
    have m: "matchEvents (ev # evs) i sbf = matchEvents evs (Suc i) ?sbf1" using OpenEv by simp
    from IH [OF inv1 len1] show ?thesis
      unfolding eq m by (auto simp add: shift)
  next
    case CloseEv
    show ?thesis
    proof (cases "stackOf sbf (frame ev)")
      case Nil
      have eq: "?F = finalFlags c evs (Suc i) inc sbf"
        using CloseEv Nil by (rule finalFlags_Close_unmatched)
      have nf: "\<not> ?F ! i" using inv i_lt CloseEv Nil by (rule flag_close_unmatched)
      have inv1: "walkInv (Suc i) inc sbf" using inv by (rule walkInv_Close_unmatched)
      have len1: "Suc i + length evs = length inc" using len by simp
      obtain ps us s where r: "matchEvents evs (Suc i) sbf = (ps, us, s)"
        by (cases "matchEvents evs (Suc i) sbf") auto
      have m: "matchEvents (ev # evs) i sbf = (ps, i # us, s)" using CloseEv Nil r by simp
      from IH [OF inv1 len1] nf [unfolded eq] show ?thesis
        unfolding eq m r by (auto simp add: shift)
    next
      case (Cons oi rest)
      let ?inc1 = "if c \<le> at ev then inc[oi := True, i := True] else inc"
      let ?sbf1 = "AList.update (frame ev) rest sbf"
      have eq: "?F = finalFlags c evs (Suc i) ?inc1 ?sbf1"
        using CloseEv Cons by (rule finalFlags_Close_matched)
      from flag_close_matched [OF inv i_lt CloseEv Cons, of c evs]
      have fi: "?F ! i = (c \<le> at ev)" and fo: "?F ! oi = (c \<le> at ev)" by simp_all
      have inv1: "walkInv (Suc i) ?inc1 ?sbf1" using inv Cons by (rule walkInv_Close_matched)
      have len1: "Suc i + length evs = length ?inc1" using len by simp
      obtain ps us s where r: "matchEvents evs (Suc i) ?sbf1 = (ps, us, s)"
        by (cases "matchEvents evs (Suc i) ?sbf1") auto
      have m: "matchEvents (ev # evs) i sbf = ((oi, i) # ps, us, s)" using CloseEv Cons r by simp
      have hd: "i \<le> i \<and> i < i + length (ev # evs) \<and>
            ?F ! oi = (c \<le> at ((ev # evs) ! (i - i))) \<and> ?F ! i = (c \<le> at ((ev # evs) ! (i - i)))"
        using fi fo by simp
      have tl: "(\<forall>p\<in>set ps.
            i \<le> snd p \<and> snd p < i + length (ev # evs) \<and>
            ?F ! fst p = (c \<le> at ((ev # evs) ! (snd p - i))) \<and>
            ?F ! snd p = (c \<le> at ((ev # evs) ! (snd p - i)))) \<and>
         (\<forall>ci\<in>set us. \<not> ?F ! ci)"
        using IH [OF inv1 len1] unfolding eq r by (auto simp add: shift)
      from hd tl show ?thesis unfolding m by simp
    qed
  qed
qed

lemma opens_flags_aux:
  assumes "\<forall>j\<in>set (openIdx sbf). j < i" and "i + length evs = length inc"
  shows "\<forall>j\<in>set (openIdx (snd (snd (matchEvents evs i sbf)))).
           j < length inc \<and> finalFlags c evs i inc sbf ! j"
  using assms
proof (induction evs arbitrary: i inc sbf)
  case Nil
  then show ?case by (auto simp add: includeRemaining_nth)
next
  case (Cons ev evs)
  note IH = Cons.IH and bound = Cons.prems(1) and len = Cons.prems(2)
  show ?case
  proof (cases "etype ev")
    case OpenEv
    let ?sbf1 = "AList.update (frame ev) (i # stackOf sbf (frame ev)) sbf"
    have b1: "\<forall>j\<in>set (openIdx ?sbf1). j < Suc i"
      using bound by (auto simp add: openIdx_push less_Suc_eq)
    have len1: "Suc i + length evs = length inc" using len by simp
    from IH [OF b1 len1] OpenEv show ?thesis by (simp add: finalFlags_Open)
  next
    case CloseEv
    show ?thesis
    proof (cases "stackOf sbf (frame ev)")
      case Nil
      have b1: "\<forall>j\<in>set (openIdx sbf). j < Suc i" using bound by (auto simp add: less_Suc_eq)
      have len1: "Suc i + length evs = length inc" using len by simp
      obtain ps us s where r: "matchEvents evs (Suc i) sbf = (ps, us, s)"
        by (cases "matchEvents evs (Suc i) sbf") auto
      from IH [OF b1 len1] CloseEv Nil r show ?thesis
        by (simp add: finalFlags_Close_unmatched)
    next
      case (Cons oi rest)
      let ?inc1 = "if c \<le> at ev then inc[oi := True, i := True] else inc"
      let ?sbf1 = "AList.update (frame ev) rest sbf"
      from Cons have m: "map_of sbf (frame ev) = Some (oi # rest)" by (rule stackOf_Cons_map_of)
      have b1: "\<forall>j\<in>set (openIdx ?sbf1). j < Suc i"
        using bound openIdx_pop_subset [OF m] by (blast intro: less_SucI)
      have len1: "Suc i + length evs = length ?inc1" using len by simp
      obtain ps us s where r: "matchEvents evs (Suc i) ?sbf1 = (ps, us, s)"
        by (cases "matchEvents evs (Suc i) ?sbf1") auto
      have eq: "finalFlags c (ev # evs) i inc sbf = finalFlags c evs (Suc i) ?inc1 ?sbf1"
        using CloseEv Cons by (rule finalFlags_Close_matched)
      have mm: "matchEvents (ev # evs) i sbf = ((oi, i) # ps, us, s)" using CloseEv Cons r by simp
      have l: "length ?inc1 = length inc" by simp
      from IH [OF b1 len1] show ?thesis unfolding eq mm r l by simp
    qed
  qed
qed

lemma filterIncluded_nths:
  "length inc = length evs \<Longrightarrow> filterIncluded evs inc = nths evs {j. j < length inc \<and> inc ! j}"
proof (induction evs arbitrary: inc)
  case Nil
  then show ?case by simp
next
  case (Cons ev evs)
  then obtain b bs where inc: "inc = b # bs" by (cases inc) auto
  with Cons.prems have l: "length bs = length evs" by simp
  have s: "{j. Suc j \<in> {j. j < length (b # bs) \<and> (b # bs) ! j}} = {j. j < length bs \<and> bs ! j}"
    by auto
  show ?case unfolding inc using Cons.IH [OF l] by (simp add: nths_Cons s)
qed

lemma includeFlags_length [simp]: "length (includeFlags c es) = length es"
  by (simp add: includeFlags_finalFlags)

text \<open>
  Claim C3. \<open>finalizeTrace\<close> with capture-start cycle \<open>c\<close> returns the events of the
  sorted list at the retained indices, in order. Of a pair matched by the walk with a
  LIFO of open indices per frame index, the open event and the close event are both
  retained if the close event's \<open>at\<close> is at least \<open>c\<close> and both dropped otherwise.
  Every open event left unmatched at the end of the walk is retained; a close event that
  matches no open event is dropped.
\<close>

theorem finalize_keeps_pairs_closed_after_start:
  "events (finalizeTrace t (Some c)) =
     nths (sortedEvents t) {j. retainedAt c (sortedEvents t) j} \<and>
   (\<forall>p\<in>set (matchedPairs (sortedEvents t)).
      retainedAt c (sortedEvents t) (fst p) = (c \<le> at (sortedEvents t ! snd p)) \<and>
      retainedAt c (sortedEvents t) (snd p) = (c \<le> at (sortedEvents t ! snd p))) \<and>
   (\<forall>oi\<in>set (unmatchedOpens (sortedEvents t)). retainedAt c (sortedEvents t) oi) \<and>
   (\<forall>ci\<in>set (unmatchedCloses (sortedEvents t)). \<not> retainedAt c (sortedEvents t) ci)"
proof -
  let ?es = "sortedEvents t"
  let ?inc0 = "replicate (length ?es) False"
  have inv: "walkInv 0 ?inc0 []" by (rule walkInv_init)
  have len: "0 + length ?es = length ?inc0" by simp
  have a: "events (finalizeTrace t (Some c)) = nths ?es {j. retainedAt c ?es j}"
    by (simp add: events_finalizeTrace_Some sortedEvents_def [symmetric] filterIncluded_nths
        retainedAt_def)
  note pf = pairs_flags_aux [OF inv len, of c, folded includeFlags_finalFlags matchedPairs_def
      unmatchedCloses_def]
  have b: "\<forall>p\<in>set (matchedPairs ?es).
      retainedAt c ?es (fst p) = (c \<le> at (?es ! snd p)) \<and>
      retainedAt c ?es (snd p) = (c \<le> at (?es ! snd p))"
  proof
    fix p assume p: "p \<in> set (matchedPairs ?es)"
    from matchedPairs_ok [of ?es] p have "fst p < snd p" and "snd p < length ?es"
      by (auto simp add: pairOk_def)
    with pf [THEN conjunct1, rule_format, OF p]
    show "retainedAt c ?es (fst p) = (c \<le> at (?es ! snd p)) \<and>
      retainedAt c ?es (snd p) = (c \<le> at (?es ! snd p))"
      by (simp add: retainedAt_def)
  qed
  have d: "\<forall>oi\<in>set (unmatchedOpens ?es). retainedAt c ?es oi"
    using opens_flags_aux [of "[]" 0 ?es ?inc0 c]
    by (simp add: unmatchedOpens_def retainedAt_def includeFlags_finalFlags)
  have e: "\<forall>ci\<in>set (unmatchedCloses ?es). \<not> retainedAt c ?es ci"
    using pf [THEN conjunct2] by (simp add: retainedAt_def)
  show ?thesis by (intro conjI a b d e)
qed

theorem finalize_keeps_pairs_closed_after_start_witness:
  "(1, 2) \<in> set (matchedPairs (sortedEvents demoTrace)) \<and>
   at (sortedEvents demoTrace ! 2) = 30 \<and>
   \<not> retainedAt 100 (sortedEvents demoTrace) 1 \<and> \<not> retainedAt 100 (sortedEvents demoTrace) 2 \<and>
   (0, 3) \<in> set (matchedPairs (sortedEvents demoTrace)) \<and>
   at (sortedEvents demoTrace ! 3) = 150 \<and>
   retainedAt 100 (sortedEvents demoTrace) 0 \<and> retainedAt 100 (sortedEvents demoTrace) 3 \<and>
   6 \<in> set (unmatchedOpens (sortedEvents demoTrace)) \<and>
   retainedAt 100 (sortedEvents demoTrace) 6 \<and>
   7 \<in> set (unmatchedCloses (sortedEvents demoTrace)) \<and>
   \<not> retainedAt 100 (sortedEvents demoTrace) 7"
proof -
  note t = finalize_keeps_pairs_closed_after_start [of demoTrace 100]
  have p1: "(1, 2) \<in> set (matchedPairs (sortedEvents demoTrace))" by code_simp
  have a1: "at (sortedEvents demoTrace ! 2) = 30" by code_simp
  have p2: "(0, 3) \<in> set (matchedPairs (sortedEvents demoTrace))" by code_simp
  have a2: "at (sortedEvents demoTrace ! 3) = 150" by code_simp
  have o: "6 \<in> set (unmatchedOpens (sortedEvents demoTrace))" by code_simp
  have u: "7 \<in> set (unmatchedCloses (sortedEvents demoTrace))" by code_simp
  from t [THEN conjunct2, THEN conjunct1, rule_format, OF p1] a1
  have r1: "\<not> retainedAt 100 (sortedEvents demoTrace) 1" "\<not> retainedAt 100 (sortedEvents demoTrace) 2"
    by simp_all
  from t [THEN conjunct2, THEN conjunct1, rule_format, OF p2] a2
  have r2: "retainedAt 100 (sortedEvents demoTrace) 0" "retainedAt 100 (sortedEvents demoTrace) 3"
    by simp_all
  have r3: "retainedAt 100 (sortedEvents demoTrace) 6"
    by (rule t [THEN conjunct2, THEN conjunct2, THEN conjunct1, rule_format, OF o])
  have r4: "\<not> retainedAt 100 (sortedEvents demoTrace) 7"
    by (rule t [THEN conjunct2, THEN conjunct2, THEN conjunct2, rule_format, OF u])
  show ?thesis by (intro conjI p1 a1 r1 p2 a2 r2 o r3 u r4)
qed

end
